theory Spec2Isabelle
  imports Main "HOL-Library.Product_Lexorder"
begin

section \<open>Shared vocabulary\<close>

text \<open>
  Exceptions of the Python sources are values. \<open>Exception\<close> carries the text and the
  status code of a \<^verbatim>\<open>raise Exception(f"...: {r.status_code}")\<close> of the scripts,
  \<open>SystemExit\<close> the code of an \<^verbatim>\<open>exit(1)\<close>; the other constructors are the
  exceptions raised by the interpreter and the libraries the scripts call.
\<close>

datatype error =
    ValueError
  | KeyError
  | IndexError
  | ZeroDivisionError
  | TypeError
  | Cv2Error
  | ConnectionError
  | SystemExit int
  | Exception string int

text \<open>
  A naive \<^verbatim>\<open>datetime.datetime\<close>: year, month, day, hour, minute, second,
  microsecond. Python compares naive datetimes field by field in this order, which is
  the lexicographic order of the tuple.
\<close>

type_synonym datetime = "nat \<times> nat \<times> nat \<times> nat \<times> nat \<times> nat \<times> nat"

section \<open>Playlist tracker: the date filter\<close>

text \<open>
  An entry of a playlist as the service returns it: \<^verbatim>\<open>item['track']\<close> is an object
  or null, \<^verbatim>\<open>item['added_at']\<close> is the timestamp text.
\<close>

record track_obj =
  uri :: string
  name :: string
  artists :: "string list"

record playlist_item =
  track :: "track_obj option"
  added_at :: string

text \<open>
  \<^verbatim>\<open>filter_songs_by_date\<close> (track_new_songs.py 67-77, track_new_songs_oauth.py
  183-193; the two bodies are the same). The library call
  \<^verbatim>\<open>datetime.strptime(s, '%Y-%m-%dT%H:%M:%SZ')\<close> is the parameter \<open>strptime\<close>;
  when it raises, the loop is left with that exception.
\<close>

fun filter_loop ::
  "(string \<Rightarrow> error + datetime) \<Rightarrow> playlist_item list \<Rightarrow> datetime \<Rightarrow>
   playlist_item list \<Rightarrow> error + playlist_item list" where
  "filter_loop strptime [] since_date new_tracks = Inr new_tracks"
| "filter_loop strptime (item # tracks) since_date new_tracks =
     (if track item = None then filter_loop strptime tracks since_date new_tracks
      else case strptime (added_at item) of
             Inl e \<Rightarrow> Inl e
           | Inr added \<Rightarrow>
               if added > since_date
               then filter_loop strptime tracks since_date (new_tracks @ [item])
               else filter_loop strptime tracks since_date new_tracks)"

definition filter_songs_by_date ::
  "(string \<Rightarrow> error + datetime) \<Rightarrow> playlist_item list \<Rightarrow> datetime \<Rightarrow>
   error + playlist_item list" where
  "filter_songs_by_date strptime tracks since_date = filter_loop strptime tracks since_date []"

text \<open>
  A reading of the canonical form \<^verbatim>\<open>YYYY-MM-DDTHH:MM:SSZ\<close> that the service emits,
  used for the concrete examples below. The theorems hold for every \<open>strptime\<close>.
\<close>

definition digit_val :: "char \<Rightarrow> nat option" where
  "digit_val c =
     (let v = (of_char c :: nat) in if 48 \<le> v \<and> v \<le> 57 then Some (v - 48) else None)"

fun digits_val :: "string \<Rightarrow> nat \<Rightarrow> nat option" where
  "digits_val [] acc = Some acc"
| "digits_val (c # cs) acc =
     (case digit_val c of None \<Rightarrow> None | Some d \<Rightarrow> digits_val cs (10 * acc + d))"

definition parse_num :: "string \<Rightarrow> nat option" where
  "parse_num s = digits_val s 0"

definition strptime_z :: "string \<Rightarrow> error + datetime" where
  "strptime_z s =
     (if length s = 20 \<and> s ! 4 = CHR ''-'' \<and> s ! 7 = CHR ''-'' \<and> s ! 10 = CHR ''T''
         \<and> s ! 13 = CHR '':'' \<and> s ! 16 = CHR '':'' \<and> s ! 19 = CHR ''Z''
      then (case (parse_num (take 4 s), parse_num (take 2 (drop 5 s)),
                  parse_num (take 2 (drop 8 s)), parse_num (take 2 (drop 11 s)),
                  parse_num (take 2 (drop 14 s)), parse_num (take 2 (drop 17 s))) of
              (Some y, Some mo, Some d, Some h, Some mi, Some sec) \<Rightarrow>
                 Inr (y, mo, d, h, mi, sec, 0)
            | _ \<Rightarrow> Inl ValueError)
      else Inl ValueError)"

text \<open>The specification's reading of the filter: keep what is newer than the cursor.\<close>

definition newer_than :: "(string \<Rightarrow> error + datetime) \<Rightarrow> datetime \<Rightarrow> playlist_item \<Rightarrow> bool" where
  "newer_than strptime since_date item =
     (case strptime (added_at item) of Inl e \<Rightarrow> False | Inr added \<Rightarrow> added > since_date)"

definition parses :: "(string \<Rightarrow> error + datetime) \<Rightarrow> playlist_item \<Rightarrow> bool" where
  "parses strptime item = (case strptime (added_at item) of Inl e \<Rightarrow> False | Inr added \<Rightarrow> True)"

section \<open>Playlist tracker: the network\<close>

text \<open>
  The scripts talk to the service through \<^verbatim>\<open>requests\<close>. The network is a state:
  the requests sent so far, and what happens to a request given what was sent before it:
  the service answers with a response carrying a status code, or the call raises (a
  \<^verbatim>\<open>requests\<close> exception such as ConnectionError), which is \<open>Inl\<close>.
\<close>

datatype body =
    TokenBody string int "string option"
  | PlaylistBody string "playlist_item list" "string option"
  | PageBody "playlist_item list" "string option"
  | IdBody string
  | NoBody

record response =
  status_code :: int
  resp_text :: string
  json :: body

datatype request =
    PostClientCredentials string string
  | PostRefreshToken string string "string option"
  | PostAuthCode string string string string
  | GetUrl string string
  | PostTracks string string "string list"
  | PostPlaylist string string string string bool

record net =
  sent :: "request list"
  reply :: "request list \<Rightarrow> request \<Rightarrow> error + response"

definition send :: "net \<Rightarrow> request \<Rightarrow> (error + response) \<times> net" where
  "send n rq = (reply n (sent n) rq, n\<lparr>sent := sent n @ [rq]\<rparr>)"

text \<open>\<^verbatim>\<open>range(start, stop, step)\<close> for a positive step and \<open>start \<le> stop\<close>.\<close>

definition py_range :: "nat \<Rightarrow> nat \<Rightarrow> nat \<Rightarrow> nat list" where
  "py_range start stop step =
     map (\<lambda>j. start + j * step) [0..<(stop - start + step - 1) div step]"

text \<open>What the scripts print, as events.\<close>

datatype msg =
    AddedBatch nat nat
  | FailedBatch nat int
  | ResponseText string
  | ProcessingPlaylist nat nat string
  | PlaylistName string
  | TotalTracks nat
  | NewTracks nat
  | ErrorProcessing string error
  | CheckingSince datetime
  | TotalNew nat
  | SummaryEntry string nat int nat
  | SummaryTrack string string
  | SummaryMore nat
  | ErrorRefreshing int
  | ErrorGettingToken int
  | OpenedBrowser string string string
  | PromptRedirect
  | Note string

text \<open>
  \<^verbatim>\<open>add_tracks_to_playlist\<close> of track_new_songs_oauth.py (259-283). The state of the
  loop is the running total, the printed lines and the network. The loop has no handler:
  a call that raises ends it with that exception.
\<close>

definition tracks_url :: "string \<Rightarrow> string" where
  "tracks_url playlist_id = ''https://api.spotify.com/v1/playlists/'' @ playlist_id @ ''/tracks''"

fun add_batches_oauth ::
  "string \<Rightarrow> string list \<Rightarrow> string \<Rightarrow> nat list \<Rightarrow> nat \<Rightarrow> msg list \<Rightarrow> net \<Rightarrow>
   (error + nat) \<times> msg list \<times> net" where
  "add_batches_oauth playlist_id track_uris access_token [] total_added ms n =
     (Inr total_added, ms, n)"
| "add_batches_oauth playlist_id track_uris access_token (i # rest) total_added ms n =
     (let batch = take 100 (drop i track_uris)
      in case send n (PostTracks (tracks_url playlist_id) access_token batch) of
           (Inl e, n') \<Rightarrow> (Inl e, ms, n')
         | (Inr r, n') \<Rightarrow>
             if 200 \<le> status_code r \<and> status_code r < 299
             then add_batches_oauth playlist_id track_uris access_token rest
                    (total_added + length batch)
                    (ms @ [AddedBatch (i div 100 + 1) (length batch)]) n'
             else add_batches_oauth playlist_id track_uris access_token rest total_added
                    (ms @ [FailedBatch (i div 100 + 1) (status_code r), ResponseText (resp_text r)])
                    n')"

definition add_tracks_to_playlist_oauth ::
  "string \<Rightarrow> string list \<Rightarrow> string \<Rightarrow> net \<Rightarrow> (error + nat) \<times> msg list \<times> net" where
  "add_tracks_to_playlist_oauth playlist_id track_uris access_token n =
     add_batches_oauth playlist_id track_uris access_token (py_range 0 (length track_uris) 100)
       0 [] n"

text \<open>
  \<^verbatim>\<open>add_tracks_to_playlist\<close> of track_new_songs.py (108-128): the same loop, which
  only warns on a batch that is not answered with a status from 200 to 298 and returns
  nothing.
\<close>

fun add_batches ::
  "string \<Rightarrow> string list \<Rightarrow> string \<Rightarrow> nat list \<Rightarrow> msg list \<Rightarrow> net \<Rightarrow>
   (error + unit) \<times> msg list \<times> net" where
  "add_batches playlist_id track_uris access_token [] ms n = (Inr (), ms, n)"
| "add_batches playlist_id track_uris access_token (i # rest) ms n =
     (let batch = take 100 (drop i track_uris)
      in case send n (PostTracks (tracks_url playlist_id) access_token batch) of
           (Inl e, n') \<Rightarrow> (Inl e, ms, n')
         | (Inr r, n') \<Rightarrow>
             if \<not> (200 \<le> status_code r \<and> status_code r < 299)
             then add_batches playlist_id track_uris access_token rest
                    (ms @ [FailedBatch (i div 100 + 1) (status_code r), ResponseText (resp_text r)])
                    n'
             else add_batches playlist_id track_uris access_token rest ms n')"

definition add_tracks_to_playlist ::
  "string \<Rightarrow> string list \<Rightarrow> string \<Rightarrow> net \<Rightarrow> (error + unit) \<times> msg list \<times> net" where
  "add_tracks_to_playlist playlist_id track_uris access_token n =
     add_batches playlist_id track_uris access_token (py_range 0 (length track_uris) 100) [] n"

text \<open>
  Vocabulary of the claims: a network on which every call is answered with a response,
  whatever its status.
\<close>

definition answers :: "net \<Rightarrow> bool" where
  "answers n = (\<forall>h rq. \<exists>r. reply n h rq = Inr r)"

text \<open>The write calls a run of the loop added to the network's record, as carried batches.\<close>

fun batch_of :: "request \<Rightarrow> string list" where
  "batch_of (PostTracks u t b) = b"
| "batch_of _ = []"

definition issued :: "net \<Rightarrow> net \<Rightarrow> request list" where
  "issued n n' = drop (length (sent n)) (sent n')"

subsection \<open>Example data for the playlist tracker\<close>

definition item_jan :: playlist_item where
  "item_jan = \<lparr>track = Some \<lparr>uri = ''spotify:track:a'', name = ''A'', artists = [''X'']\<rparr>,
                added_at = ''2024-01-01T00:00:00Z''\<rparr>"

definition item_jun :: playlist_item where
  "item_jun = \<lparr>track = Some \<lparr>uri = ''spotify:track:b'', name = ''B'', artists = [''Y'']\<rparr>,
                added_at = ''2024-06-01T00:00:00Z''\<rparr>"

definition item_dec :: playlist_item where
  "item_dec = \<lparr>track = Some \<lparr>uri = ''spotify:track:c'', name = ''C'', artists = []\<rparr>,
                added_at = ''2024-12-01T00:00:00Z''\<rparr>"

definition item_null_jun :: playlist_item where
  "item_null_jun = \<lparr>track = None, added_at = ''2024-06-01T00:00:00Z''\<rparr>"

definition cursor_may :: datetime where
  "cursor_may = (2024, 5, 1, 0, 0, 0, 0)"

definition cursor_2025 :: datetime where
  "cursor_2025 = (2025, 1, 1, 12, 0, 0, 0)"

text \<open>A service that rejects the second request it receives and accepts the others.\<close>

definition net_second_fails :: net where
  "net_second_fails =
     \<lparr>sent = [],
      reply = (\<lambda>h r. Inr \<lparr>status_code = (if length h = 1 then 500 else 201),
                             resp_text = ''reply'', json = NoBody\<rparr>)\<rparr>"

text \<open>A network on which the second call raises and the others are accepted.\<close>

definition net_second_raises :: net where
  "net_second_raises =
     \<lparr>sent = [],
      reply = (\<lambda>h r. if length h = 1 then Inl ConnectionError
                     else Inr \<lparr>status_code = 201, resp_text = ''reply'', json = NoBody\<rparr>)\<rparr>"

definition uris250 :: "string list" where
  "uris250 = replicate 250 ''spotify:track:x''"


section \<open>Playlist tracker: the cursor file\<close>

text \<open>
  The standard library's \<^verbatim>\<open>datetime.isoformat()\<close> on a naive datetime:
  \<^verbatim>\<open>YYYY-MM-DDTHH:MM:SS\<close>, followed by \<^verbatim>\<open>.ffffff\<close> when the microsecond is not 0.
  \<open>zpad w n\<close> is \<^verbatim>\<open>'%0wd' % n\<close> for \<open>n < 10 ^ w\<close>, which holds for the fields
  of a datetime object (\<open>valid_datetime\<close>, the checks of the constructor).
\<close>

definition digit_char :: "nat \<Rightarrow> char" where
  "digit_char d = char_of (48 + d)"

fun zpad :: "nat \<Rightarrow> nat \<Rightarrow> string" where
  "zpad 0 n = []"
| "zpad (Suc w) n = zpad w (n div 10) @ [digit_char (n mod 10)]"

definition is_leap :: "nat \<Rightarrow> bool" where
  "is_leap y = (y mod 4 = 0 \<and> (y mod 100 \<noteq> 0 \<or> y mod 400 = 0))"

definition days_in_month :: "nat \<Rightarrow> nat \<Rightarrow> nat" where
  "days_in_month y m =
     (if m = 2 then (if is_leap y then 29 else 28)
      else if m = 4 \<or> m = 6 \<or> m = 9 \<or> m = 11 then 30 else 31)"

definition valid_datetime :: "datetime \<Rightarrow> bool" where
  "valid_datetime dt =
     (case dt of (y, mo, d, h, mi, s, us) \<Rightarrow>
        1 \<le> y \<and> y \<le> 9999 \<and> 1 \<le> mo \<and> mo \<le> 12 \<and> 1 \<le> d \<and> d \<le> days_in_month y mo
        \<and> h < 24 \<and> mi < 60 \<and> s < 60 \<and> us < 1000000)"

definition isoformat :: "datetime \<Rightarrow> string" where
  "isoformat dt =
     (case dt of (y, mo, d, h, mi, s, us) \<Rightarrow>
        zpad 4 y @ ''-'' @ zpad 2 mo @ ''-'' @ zpad 2 d @ ''T''
        @ zpad 2 h @ '':'' @ zpad 2 mi @ '':'' @ zpad 2 s
        @ (if us = 0 then [] else ''.'' @ zpad 6 us))"

text \<open>
  \<^verbatim>\<open>datetime.fromisoformat\<close> on the two shapes that \<open>isoformat\<close> writes for a naive
  datetime (any character may separate date and time); the fields then go through the
  checks of the constructor. The library reads further ISO-8601 shapes, none of which
  the scripts write; here they are a ValueError.
\<close>

definition fromisoformat :: "string \<Rightarrow> error + datetime" where
  "fromisoformat s =
     (if (length s = 19 \<or> (length s = 26 \<and> s ! 19 = CHR ''.''))
         \<and> s ! 4 = CHR ''-'' \<and> s ! 7 = CHR ''-'' \<and> s ! 13 = CHR '':'' \<and> s ! 16 = CHR '':''
      then (case (parse_num (take 4 s), parse_num (take 2 (drop 5 s)),
                  parse_num (take 2 (drop 8 s)), parse_num (take 2 (drop 11 s)),
                  parse_num (take 2 (drop 14 s)), parse_num (take 2 (drop 17 s)),
                  parse_num (drop 20 s)) of
              (Some y, Some mo, Some d, Some h, Some mi, Some sec, Some us) \<Rightarrow>
                 if valid_datetime (y, mo, d, h, mi, sec, us)
                 then Inr (y, mo, d, h, mi, sec, us) else Inl ValueError
            | _ \<Rightarrow> Inl ValueError)
      else Inl ValueError)"

text \<open>
  The clock of a call: the value of \<^verbatim>\<open>datetime.now()\<close> and the library's
  \<^verbatim>\<open>+ timedelta(seconds=n)\<close>.
\<close>

record clock =
  now :: datetime
  shift :: "datetime \<Rightarrow> int \<Rightarrow> datetime"

text \<open>
  The files of the scripts, each absent or holding the JSON value last written to it: the
  cursor file an object of string fields, the token cache and the song log as the
  scripts write them.
\<close>

record token_data =
  cached_access_token :: string
  cached_refresh_token :: "string option option"
  cached_expires_at :: string

record track_info =
  info_uri :: string
  info_name :: string
  info_artist :: string
  info_added_at :: string

record log_entry =
  log_playlist_id :: string
  log_playlist_name :: string
  log_start_index :: nat
  log_count :: nat
  log_end_index :: nat
  log_tracks :: "track_info list"

record log_run =
  log_timestamp :: string
  log_playlists :: "log_entry list"

record filesystem =
  last_run_file :: "(string \<times> string) list option"
  token_cache_file :: "token_data option"
  song_log_file :: "log_run list option"

text \<open>\<^verbatim>\<open>load_last_run_date\<close> and \<^verbatim>\<open>save_last_run_date\<close> (the same in both scripts).\<close>

definition load_last_run_date :: "clock \<Rightarrow> filesystem \<Rightarrow> error + datetime" where
  "load_last_run_date c fs =
     (case last_run_file fs of
        Some data \<Rightarrow>
          (case map_of data ''last_run'' of
             None \<Rightarrow> Inl KeyError
           | Some s \<Rightarrow> fromisoformat s)
      | None \<Rightarrow> Inr (shift c (now c) (- (30 * 86400))))"

definition save_last_run_date :: "clock \<Rightarrow> filesystem \<Rightarrow> filesystem" where
  "save_last_run_date c fs = fs\<lparr>last_run_file := Some [(''last_run'', isoformat (now c))]\<rparr>"

subsection \<open>Example data for the cursor file\<close>

definition clock_at :: "datetime \<Rightarrow> clock" where
  "clock_at t = \<lparr>now = t, shift = (\<lambda>d n. d)\<rparr>"

definition no_files :: filesystem where
  "no_files = \<lparr>last_run_file = None, token_cache_file = None, song_log_file = None\<rparr>"

section \<open>Playlist tracker: one run of track_new_songs.py\<close>

text \<open>
  String helpers for \<^verbatim>\<open>sub in s\<close> and for the pieces of \<^verbatim>\<open>s.split(sep)\<close> that the
  scripts take: \<open>before_first sep s\<close> is \<^verbatim>\<open>s.split(sep)[0]\<close>, and
  \<open>before_first sep (after_first sep s)\<close> is \<^verbatim>\<open>s.split(sep)[1]\<close> when \<open>sep\<close> occurs.
\<close>

fun starts_with :: "string \<Rightarrow> string \<Rightarrow> bool" where
  "starts_with [] s = True"
| "starts_with (p # ps) [] = False"
| "starts_with (p # ps) (c # cs) = (p = c \<and> starts_with ps cs)"

fun contains :: "string \<Rightarrow> string \<Rightarrow> bool" where
  "contains sub [] = (sub = [])"
| "contains sub (c # cs) = (starts_with sub (c # cs) \<or> contains sub cs)"

fun after_first :: "string \<Rightarrow> string \<Rightarrow> string" where
  "after_first sep [] = []"
| "after_first sep (c # cs) =
     (if starts_with sep (c # cs) then drop (length sep) (c # cs) else after_first sep cs)"

fun before_first :: "string \<Rightarrow> string \<Rightarrow> string" where
  "before_first sep [] = []"
| "before_first sep (c # cs) =
     (if starts_with sep (c # cs) then [] else c # before_first sep cs)"

definition extract_playlist_id :: "string \<Rightarrow> string" where
  "extract_playlist_id playlist_link =
     (if contains ''spotify.com/playlist/'' playlist_link
      then before_first ''?''
             (before_first ''playlist/'' (after_first ''playlist/'' playlist_link))
      else playlist_link)"

definition CLIENT_ID :: string where
  "CLIENT_ID = ''36939ed42fef4a33b670d4a6b6b64db7''"

definition CLIENT_SECRET :: string where
  "CLIENT_SECRET = ''620a5965374c4330b418b277cd522183''"

text \<open>\<^verbatim>\<open>get_access_token\<close> (16-27): \<^verbatim>\<open>range(200, 299)\<close> is 200 to 298.\<close>

definition get_access_token :: "string \<Rightarrow> string \<Rightarrow> net \<Rightarrow> (error + string) \<times> net" where
  "get_access_token client_id client_secret n =
     (case send n (PostClientCredentials client_id client_secret) of
        (Inl e, n') \<Rightarrow> (Inl e, n')
      | (Inr r, n') \<Rightarrow>
          if 200 \<le> status_code r \<and> status_code r < 299
          then (case json r of
                  TokenBody tok expires_in rt \<Rightarrow> (Inr tok, n')
                | _ \<Rightarrow> (Inl KeyError, n'))
          else (Inl (Exception ''Failed to get access token'' (status_code r)), n'))"

definition playlist_url :: "string \<Rightarrow> string" where
  "playlist_url pid = ''https://api.spotify.com/v1/playlists/'' @ pid"

text \<open>
  The pagination loop of \<^verbatim>\<open>get_playlist_with_dates\<close> (56-63). It follows the
  \<open>next\<close> links for as long as the service gives one, so it is bounded by fuel here:
  \<open>None\<close> is a loop that has not ended within the fuel. A page that is not answered with
  200 ends the loop with the tracks read so far.
\<close>

fun fetch_pages ::
  "nat \<Rightarrow> string \<Rightarrow> string option \<Rightarrow> playlist_item list \<Rightarrow> net \<Rightarrow>
   ((error + playlist_item list) \<times> net) option" where
  "fetch_pages fuel tok None acc n = Some (Inr acc, n)"
| "fetch_pages fuel tok (Some u) acc n =
     (if u = [] then Some (Inr acc, n)
      else case fuel of
             0 \<Rightarrow> None
           | Suc f \<Rightarrow>
               (case send n (GetUrl u tok) of
                  (Inl e, n') \<Rightarrow> Some (Inl e, n')
                | (Inr r, n') \<Rightarrow>
                    if status_code r = 200
                    then (case json r of
                            PageBody items nxt \<Rightarrow> fetch_pages f tok nxt (acc @ items) n'
                          | _ \<Rightarrow> Some (Inl KeyError, n'))
                    else Some (Inr acc, n')))"

definition get_playlist_with_dates ::
  "nat \<Rightarrow> string \<Rightarrow> string \<Rightarrow> net \<Rightarrow>
   ((error + playlist_item list \<times> string) \<times> net) option" where
  "get_playlist_with_dates fuel pid tok n =
     (case send n (GetUrl (playlist_url pid) tok) of
        (Inl e, n') \<Rightarrow> Some (Inl e, n')
      | (Inr r, n') \<Rightarrow>
          if status_code r \<noteq> 200
          then Some (Inl (Exception ''Failed to get playlist'' (status_code r)), n')
          else (case json r of
                  PlaylistBody pname items nxt \<Rightarrow>
                    (case fetch_pages fuel tok nxt items n' of
                       None \<Rightarrow> None
                     | Some (Inl e, n'') \<Rightarrow> Some (Inl e, n'')
                     | Some (Inr all_items, n'') \<Rightarrow> Some (Inr (all_items, pname), n''))
                | _ \<Rightarrow> Some (Inl KeyError, n')))"

text \<open>\<^verbatim>\<open>get_track_info\<close> (98-106) and the list comprehension over it.\<close>

definition get_track_info :: "playlist_item \<Rightarrow> error + track_info" where
  "get_track_info track_item =
     (case track track_item of
        None \<Rightarrow> Inl TypeError
      | Some t \<Rightarrow>
          Inr \<lparr>info_uri = uri t, info_name = name t,
               info_artist = (if artists t \<noteq> [] then hd (artists t) else ''Unknown''),
               info_added_at = added_at track_item\<rparr>)"

fun get_track_infos :: "playlist_item list \<Rightarrow> error + track_info list" where
  "get_track_infos [] = Inr []"
| "get_track_infos (t # ts) =
     (case get_track_info t of
        Inl e \<Rightarrow> Inl e
      | Inr i \<Rightarrow> (case get_track_infos ts of Inl e \<Rightarrow> Inl e | Inr is \<Rightarrow> Inr (i # is)))"

text \<open>
  The loop of \<^verbatim>\<open>main\<close> over the playlists (179-207). Its state: the new tracks and
  the log entries collected so far, the printed lines, and the network. The body of the
  \<^verbatim>\<open>try\<close> keeps what it printed and sent before an exception; the handler prints
  the error and the loop goes on.
\<close>

record main_state =
  all_new_tracks :: "playlist_item list"
  log_data :: "log_entry list"
  out :: "msg list"
  network :: net

definition process_playlist ::
  "nat \<Rightarrow> (string \<Rightarrow> error + datetime) \<Rightarrow> string \<Rightarrow> datetime \<Rightarrow> nat \<Rightarrow> main_state \<Rightarrow>
   nat \<times> string \<Rightarrow> main_state option" where
  "process_playlist fuel strptime tok last_run n_links st il =
     (let idx = fst il; playlist_link = snd il;
          pid = extract_playlist_id playlist_link;
          st1 = st\<lparr>out := out st @ [ProcessingPlaylist idx n_links pid]\<rparr>
      in case get_playlist_with_dates fuel pid tok (network st1) of
           None \<Rightarrow> None
         | Some (Inl e, n') \<Rightarrow>
             Some (st1\<lparr>out := out st1 @ [ErrorProcessing playlist_link e], network := n'\<rparr>)
         | Some (Inr (items, pname), n') \<Rightarrow>
             (let st2 = st1\<lparr>out := out st1 @ [PlaylistName pname, TotalTracks (length items)],
                            network := n'\<rparr>
              in case filter_songs_by_date strptime items last_run of
                   Inl e \<Rightarrow> Some (st2\<lparr>out := out st2 @ [ErrorProcessing playlist_link e]\<rparr>)
                 | Inr new_tracks \<Rightarrow>
                     (let st3 = st2\<lparr>out := out st2 @ [NewTracks (length new_tracks)]\<rparr>
                      in case get_track_infos new_tracks of
                           Inl e \<Rightarrow> Some (st3\<lparr>out := out st3 @ [ErrorProcessing playlist_link e]\<rparr>)
                         | Inr track_infos \<Rightarrow>
                             if new_tracks \<noteq> []
                             then Some (st3\<lparr>log_data := log_data st3 @
                                            [\<lparr>log_playlist_id = pid, log_playlist_name = pname,
                                              log_start_index = length (all_new_tracks st3),
                                              log_count = length new_tracks,
                                              log_end_index = length (all_new_tracks st3)
                                                              + length new_tracks,
                                              log_tracks = track_infos\<rparr>],
                                          all_new_tracks := all_new_tracks st3 @ new_tracks\<rparr>)
                             else Some st3)))"

fun process_playlists ::
  "nat \<Rightarrow> (string \<Rightarrow> error + datetime) \<Rightarrow> string \<Rightarrow> datetime \<Rightarrow> nat \<Rightarrow> main_state \<Rightarrow>
   (nat \<times> string) list \<Rightarrow> main_state option" where
  "process_playlists fuel strptime tok last_run n_links st [] = Some st"
| "process_playlists fuel strptime tok last_run n_links st (il # ils) =
     (case process_playlist fuel strptime tok last_run n_links st il of
        None \<Rightarrow> None
      | Some st' \<Rightarrow> process_playlists fuel strptime tok last_run n_links st' ils)"

text \<open>\<^verbatim>\<open>save_song_log\<close> (130-146) and the summary that \<^verbatim>\<open>main\<close> prints (214-220).\<close>

definition save_song_log :: "log_entry list \<Rightarrow> clock \<Rightarrow> filesystem \<Rightarrow> filesystem" where
  "save_song_log entries c fs =
     (let existing_log = (case song_log_file fs of None \<Rightarrow> [] | Some l \<Rightarrow> l)
      in fs\<lparr>song_log_file :=
              Some (existing_log @ [\<lparr>log_timestamp = isoformat (now c), log_playlists = entries\<rparr>])\<rparr>)"

definition summary_lines :: "log_entry \<Rightarrow> msg list" where
  "summary_lines entry =
     [SummaryEntry (log_playlist_name entry) (log_start_index entry)
        (int (log_end_index entry) - 1) (log_count entry)]
     @ map (\<lambda>t. SummaryTrack (info_name t) (info_artist t)) (take 5 (log_tracks entry))
     @ (if length (log_tracks entry) > 5 then [SummaryMore (length (log_tracks entry) - 5)] else [])"

text \<open>
  \<^verbatim>\<open>main\<close> (148-249). The playlist links and the target playlist, which the script
  leaves to be filled in, are parameters; the clock is read as one value for the run.
  An exception that no handler catches ends the run with what was printed, sent and
  written until then.
\<close>

definition main ::
  "nat \<Rightarrow> (string \<Rightarrow> error + datetime) \<Rightarrow> clock \<Rightarrow> string list \<Rightarrow> string option \<Rightarrow>
   net \<Rightarrow> filesystem \<Rightarrow> ((error + unit) \<times> msg list \<times> net \<times> filesystem) option" where
  "main fuel strptime c PLAYLIST_LINKS TARGET_PLAYLIST_ID n fs =
     (let out0 = [Note ''Spotify New Songs Tracker'', Note ''[1/5] Authenticating with Spotify...'']
      in case get_access_token CLIENT_ID CLIENT_SECRET n of
           (Inl e, n1) \<Rightarrow> Some (Inl e, out0, n1, fs)
         | (Inr tok, n1) \<Rightarrow>
             (let out1 = out0 @ [Note ''Authentication successful'',
                                 Note ''[2/5] Loading last run date...'']
              in case load_last_run_date c fs of
                   Inl e \<Rightarrow> Some (Inl e, out1, n1, fs)
                 | Inr last_run \<Rightarrow>
                     (let out2 = out1 @ [CheckingSince last_run,
                                         Note ''[3/5] Processing playlists...''];
                          st0 = \<lparr>all_new_tracks = [], log_data = [], out = out2, network = n1\<rparr>
                      in case process_playlists fuel strptime tok last_run (length PLAYLIST_LINKS) st0
                                (zip [1..<Suc (length PLAYLIST_LINKS)] PLAYLIST_LINKS) of
                           None \<Rightarrow> None
                         | Some st \<Rightarrow>
                             (let out3 = out st @ [TotalNew (length (all_new_tracks st)),
                                                   Note ''[4/5] Summary of new songs:'']
                                         @ concat (map summary_lines (log_data st));
                                  fs1 = (if log_data st \<noteq> [] then save_song_log (log_data st) c fs
                                         else fs);
                                  out4 = out3 @ (if log_data st \<noteq> [] then [Note ''Song log saved''] else [])
                                         @ [Note ''[5/5] Adding tracks to target playlist...''];
                                  has_target = (case TARGET_PLAYLIST_ID of
                                                  None \<Rightarrow> False | Some t \<Rightarrow> t \<noteq> []);
                                  out5 = out4 @
                                    (if has_target \<and> all_new_tracks st \<noteq> []
                                     then [Note ''Note: Adding tracks requires user authentication (OAuth).'']
                                     else if \<not> has_target
                                     then [Note ''No target playlist specified. Skipping...'']
                                     else [Note ''No new tracks to add.'']);
                                  fs2 = save_last_run_date c fs1
                              in Some (Inr (), out5 @ [Note ''Last run timestamp saved'', Note ''Done!''],
                                       network st, fs2)))))"

text \<open>
  Vocabulary of the claims: the state of the loop after a playlist whose first read was
  answered with the status \<open>code\<close>. Only the printed lines and the network differ from
  the state before.
\<close>

definition after_failed_read :: "main_state \<Rightarrow> nat \<Rightarrow> nat \<Rightarrow> string \<Rightarrow> string \<Rightarrow> int \<Rightarrow> main_state" where
  "after_failed_read st idx n_links playlist_link tok code =
     st\<lparr>out := out st @ [ProcessingPlaylist idx n_links (extract_playlist_id playlist_link),
                           ErrorProcessing playlist_link (Exception ''Failed to get playlist'' code)],
        network := (network st)\<lparr>sent := sent (network st)
                     @ [GetUrl (playlist_url (extract_playlist_id playlist_link)) tok]\<rparr>\<rparr>"

section \<open>Playlist tracker: the user token of track_new_songs_oauth.py\<close>

text \<open>
  \<^verbatim>\<open>refresh_access_token\<close> (119-150). It returns the new token, or \<^verbatim>\<open>None\<close> after
  removing the cache file when the service does not answer 200.
\<close>

definition refresh_access_token ::
  "string \<Rightarrow> string \<Rightarrow> string option \<Rightarrow> clock \<Rightarrow> net \<Rightarrow> filesystem \<Rightarrow>
   (error + string option) \<times> msg list \<times> net \<times> filesystem" where
  "refresh_access_token client_id client_secret refresh_tok c n fs =
     (case send n (PostRefreshToken client_id client_secret refresh_tok) of
        (Inl e, n') \<Rightarrow> (Inl e, [], n', fs)
      | (Inr r, n') \<Rightarrow>
          if status_code r \<noteq> 200
          then (Inr None, [ErrorRefreshing (status_code r)], n', fs\<lparr>token_cache_file := None\<rparr>)
          else (case json r of
                  TokenBody tok expires_in rt \<Rightarrow>
                    (Inr (Some tok), [], n',
                     fs\<lparr>token_cache_file :=
                          Some \<lparr>cached_access_token = tok, cached_refresh_token = Some refresh_tok,
                                cached_expires_at = isoformat (shift c (now c) expires_in)\<rparr>\<rparr>)
                | _ \<Rightarrow> (Inl KeyError, [], n', fs)))"

text \<open>
  The interactive authorization of \<^verbatim>\<open>get_user_token\<close> (61-117): the browser is
  opened on the authorization page, the user pastes the redirect URL
  (\<open>redirect_response\<close>), and the code in it is exchanged for a token, which is cached.
\<close>

definition authorize ::
  "string \<Rightarrow> string \<Rightarrow> string \<Rightarrow> clock \<Rightarrow> string \<Rightarrow> net \<Rightarrow> filesystem \<Rightarrow>
   (error + string option) \<times> msg list \<times> net \<times> filesystem" where
  "authorize client_id client_secret redirect_uri c redirect_response n fs =
     (let scope = ''playlist-modify-public playlist-modify-private playlist-read-private'';
          out0 = [Note ''Authorization Required'', OpenedBrowser client_id redirect_uri scope,
                  PromptRedirect]
      in if contains ''?code='' redirect_response
         then
           (let code = before_first ''&''
                         (before_first ''?code='' (after_first ''?code='' redirect_response))
            in case send n (PostAuthCode code redirect_uri client_id client_secret) of
                 (Inl e, n') \<Rightarrow> (Inl e, out0, n', fs)
               | (Inr r, n') \<Rightarrow>
                   if status_code r \<noteq> 200
                   then (Inl (SystemExit 1),
                         out0 @ [ErrorGettingToken (status_code r), ResponseText (resp_text r)],
                         n', fs)
                   else (case json r of
                           TokenBody tok expires_in rt \<Rightarrow>
                             (Inr (Some tok), out0, n',
                              fs\<lparr>token_cache_file :=
                                   Some \<lparr>cached_access_token = tok, cached_refresh_token = Some rt,
                                         cached_expires_at =
                                           isoformat (shift c (now c) expires_in)\<rparr>\<rparr>)
                         | _ \<Rightarrow> (Inl KeyError, out0, n', fs)))
         else (Inl (SystemExit 1), out0 @ [Note ''Error: Could not extract code from URL''], n, fs))"

text \<open>
  \<^verbatim>\<open>get_user_token\<close> (44-117): a cached token that is valid for five more minutes is
  returned; an expired one is refreshed when the cache has a \<open>refresh_token\<close> key;
  otherwise, and without a cache file, the user authorizes.
\<close>

definition get_user_token ::
  "string \<Rightarrow> string \<Rightarrow> string \<Rightarrow> clock \<Rightarrow> string \<Rightarrow> net \<Rightarrow> filesystem \<Rightarrow>
   (error + string option) \<times> msg list \<times> net \<times> filesystem" where
  "get_user_token client_id client_secret redirect_uri c redirect_response n fs =
     (case token_cache_file fs of
        Some td \<Rightarrow>
          (case fromisoformat (cached_expires_at td) of
             Inl e \<Rightarrow> (Inl e, [], n, fs)
           | Inr expires \<Rightarrow>
               if now c < shift c expires (- 300)
               then (Inr (Some (cached_access_token td)), [], n, fs)
               else (case cached_refresh_token td of
                       Some rt \<Rightarrow> refresh_access_token client_id client_secret rt c n fs
                     | None \<Rightarrow>
                         authorize client_id client_secret redirect_uri c redirect_response n fs))
      | None \<Rightarrow> authorize client_id client_secret redirect_uri c redirect_response n fs)"

subsection \<open>Example data for the runs\<close>

text \<open>
  A service that knows the playlists \<open>good1\<close> and \<open>good2\<close>, each of one track added in
  June 2024, answers 404 for any other playlist, and answers every token request with the
  given status.
\<close>

definition service :: "int \<Rightarrow> request list \<Rightarrow> request \<Rightarrow> error + response" where
  "service token_status h rq =
     (case rq of
        GetUrl u t \<Rightarrow>
          if u = playlist_url ''good1'' \<or> u = playlist_url ''good2''
          then Inr \<lparr>status_code = 200, resp_text = ''ok'',
                    json = PlaylistBody ''Mix'' [item_jan, item_jun] None\<rparr>
          else Inr \<lparr>status_code = 404, resp_text = ''not found'', json = NoBody\<rparr>
      | _ \<Rightarrow>
          if token_status = 200
          then Inr \<lparr>status_code = 200, resp_text = ''ok'', json = TokenBody ''tok'' 3600 None\<rparr>
          else Inr \<lparr>status_code = token_status, resp_text = ''denied'', json = NoBody\<rparr>)"

definition net_of :: "int \<Rightarrow> net" where
  "net_of token_status = \<lparr>sent = [], reply = service token_status\<rparr>"

definition start_state :: main_state where
  "start_state = \<lparr>all_new_tracks = [], log_data = [], out = [], network = net_of 200\<rparr>"

definition expired_cache :: filesystem where
  "expired_cache =
     \<lparr>last_run_file = None,
      token_cache_file = Some \<lparr>cached_access_token = ''old'', cached_refresh_token = Some (Some ''r1''),
                                cached_expires_at = ''2024-01-01T00:00:00''\<rparr>,
      song_log_file = None\<rparr>"

section \<open>Album mosaic: the montage\<close>

text \<open>
  A numpy array of shape \<open>(dim0, dim1, 3)\<close>: the two extents and the pixel at each
  (row, column), three channel values of whatever integer dtype the array has. Only the
  positions inside the extents are meaningful.
\<close>

type_synonym pixel = "nat \<times> nat \<times> nat"

record ndarray =
  dim0 :: int
  dim1 :: int
  px :: "int \<Rightarrow> int \<Rightarrow> pixel"

text \<open>\<^verbatim>\<open>np.zeros((a, b, 3), dtype="uint8")\<close>: a negative extent is a ValueError.\<close>

definition np_zeros :: "int \<Rightarrow> int \<Rightarrow> error + ndarray" where
  "np_zeros a b =
     (if a < 0 \<or> b < 0 then Inl ValueError
      else Inr \<lparr>dim0 = a, dim1 = b, px = (\<lambda>y x. (0, 0, 0))\<rparr>)"

text \<open>A bound of a slice \<^verbatim>\<open>a[start:stop]\<close> over an axis of the given length, as Python clips it.\<close>

definition slice_index :: "int \<Rightarrow> int \<Rightarrow> int" where
  "slice_index i len = (if i < 0 then max (i + len) 0 else min i len)"

text \<open>
  numpy broadcasts the assigned value to the shape of the slice: along each axis the
  extents are equal or the value's extent is 1.
\<close>

definition broadcastable :: "int \<Rightarrow> int \<Rightarrow> bool" where
  "broadcastable src dst = (src = dst \<or> src = 1)"

text \<open>
  \<^verbatim>\<open>a[startY:endY, startX:endX] = v\<close> on an array of dtype uint8, as the canvas is.
  The slice is clipped to the array; a value that does not broadcast to the clipped shape
  is a ValueError; the assigned channel values are cast to uint8, which wraps them
  modulo 256.
\<close>

definition to_uint8 :: "pixel \<Rightarrow> pixel" where
  "to_uint8 p = (fst p mod 256, fst (snd p) mod 256, snd (snd p) mod 256)"

definition set_slice :: "ndarray \<Rightarrow> int \<times> int \<Rightarrow> int \<times> int \<Rightarrow> ndarray \<Rightarrow> error + ndarray" where
  "set_slice a ys xs v =
     (let y0 = slice_index (fst ys) (dim0 a); y1 = slice_index (snd ys) (dim0 a);
          x0 = slice_index (fst xs) (dim1 a); x1 = slice_index (snd xs) (dim1 a);
          th = max 0 (y1 - y0); tw = max 0 (x1 - x0)
      in if broadcastable (dim0 v) th \<and> broadcastable (dim1 v) tw
         then Inr (a\<lparr>px := (\<lambda>y x.
                     if y0 \<le> y \<and> y < y0 + th \<and> x0 \<le> x \<and> x < x0 + tw
                     then to_uint8 (px v (if dim0 v = 1 then 0 else y - y0)
                                         (if dim1 v = 1 then 0 else x - x0))
                     else px a y x)\<rparr>)
         else Inl ValueError)"

text \<open>
  The image library. \<open>interp\<close> gives the pixels of a resized image (\<open>interp_area\<close>
  with \<^verbatim>\<open>interpolation = cv2.INTER_AREA\<close>), \<open>putText\<close> and
  \<open>rectangle\<close> the pixels of an array after drawing on it in place (drawing never
  changes the shape).
\<close>

record cv2 =
  interp :: "ndarray \<Rightarrow> int \<Rightarrow> int \<Rightarrow> int \<Rightarrow> int \<Rightarrow> pixel"
  interp_area :: "ndarray \<Rightarrow> int \<Rightarrow> int \<Rightarrow> int \<Rightarrow> int \<Rightarrow> pixel"
  putText :: "ndarray \<Rightarrow> string \<Rightarrow> int \<times> int \<Rightarrow> int \<Rightarrow> int \<Rightarrow> pixel"
  rectangle :: "ndarray \<Rightarrow> int \<times> int \<Rightarrow> int \<times> int \<Rightarrow> int \<Rightarrow> int \<Rightarrow> pixel"

text \<open>
  \<^verbatim>\<open>cv2.resize(image, (w, h))\<close>: the result has shape \<open>(h, w, 3)\<close>; an empty source or
  an empty target size is an error of the library.
\<close>

definition cv2_resize :: "cv2 \<Rightarrow> ndarray \<Rightarrow> int \<times> int \<Rightarrow> error + ndarray" where
  "cv2_resize cv src dsize =
     (if dim0 src \<le> 0 \<or> dim1 src \<le> 0 \<or> fst dsize \<le> 0 \<or> snd dsize \<le> 0 then Inl Cv2Error
      else Inr \<lparr>dim0 = snd dsize, dim1 = fst dsize, px = interp cv src (snd dsize) (fst dsize)\<rparr>)"

text \<open>The class \<^verbatim>\<open>results_montage\<close> (sort_by_color.py 12-77).\<close>

record results_montage =
  imageW :: int
  imageH :: int
  images_per_main_axis :: int
  by_row :: bool
  montage :: ndarray
  counter :: int
  row :: int
  col :: int

text \<open>\<^verbatim>\<open>__init__\<close> (18-42). \<^verbatim>\<open>-(-num_results // images_per_main_axis)\<close> divides by zero when the per-axis count is 0.\<close>

definition results_montage_init :: "int \<times> int \<Rightarrow> int \<Rightarrow> int \<Rightarrow> bool \<Rightarrow> error + results_montage" where
  "results_montage_init image_size per_axis num_results byrow =
     (if per_axis = 0 then Inl ZeroDivisionError
      else
        let w = fst image_size; h = snd image_size;
            num_main_axis = - ((- num_results) div per_axis)
        in case (if byrow
                 then np_zeros (num_main_axis * w) (min per_axis num_results * h)
                 else np_zeros (min per_axis num_results * w) (num_main_axis * h)) of
             Inl e \<Rightarrow> Inl e
           | Inr m \<Rightarrow>
               Inr \<lparr>imageW = w, imageH = h, images_per_main_axis = per_axis, by_row = byrow,
                    montage = m, counter = 0, row = 0, col = 0\<rparr>)"

text \<open>
  \<^verbatim>\<open>add_result\<close>, lines 47-54: when a full row (column) has been placed, the cursor
  moves to the start of the next one.
\<close>

definition wrap_cursor :: "results_montage \<Rightarrow> results_montage" where
  "wrap_cursor self =
     (if by_row self
      then (if counter self \<noteq> 0 \<and> counter self mod images_per_main_axis self = 0
            then self\<lparr>col := 0, row := row self + 1\<rparr> else self)
      else (if counter self \<noteq> 0 \<and> counter self mod images_per_main_axis self = 0
            then self\<lparr>col := col self + 1, row := 0\<rparr> else self))"

text \<open>Lines 58-59: the slice \<open>((startY, endY), (startX, endX))\<close> at the cursor.\<close>

definition cursor_slice :: "results_montage \<Rightarrow> (int \<times> int) \<times> (int \<times> int)" where
  "cursor_slice self =
     ((row self * imageW self, (row self + 1) * imageW self),
      (col self * imageH self, (col self + 1) * imageH self))"

text \<open>
  \<^verbatim>\<open>add_result\<close> (44-77). An exception leaves the object as it is at that point: the
  cursor already wrapped, the counter not incremented. \<^verbatim>\<open>counter % 0\<close> raises.
\<close>

definition add_result ::
  "cv2 \<Rightarrow> results_montage \<Rightarrow> ndarray \<Rightarrow> string option \<Rightarrow> bool \<Rightarrow>
   (error \<times> results_montage) + results_montage" where
  "add_result cv self image_in label highlight =
     (if counter self \<noteq> 0 \<and> images_per_main_axis self = 0 then Inl (ZeroDivisionError, self)
      else
        let self1 = wrap_cursor self in
        case cv2_resize cv image_in (imageH self1, imageW self1) of
          Inl e \<Rightarrow> Inl (e, self1)
        | Inr img \<Rightarrow>
            let (ys, xs) = cursor_slice self1 in
            case set_slice (montage self1) ys xs img of
              Inl e \<Rightarrow> Inl (e, self1)
            | Inr m1 \<Rightarrow>
                let m2 = (case label of
                            None \<Rightarrow> m1
                          | Some t \<Rightarrow> m1\<lparr>px := putText cv m1 t (fst xs + 5, fst ys + 13)\<rparr>);
                    m3 = (if highlight
                          then m2\<lparr>px := rectangle cv m2 (fst xs + 3, fst ys + 3) (snd xs - 3, snd ys - 3)\<rparr>
                          else m2);
                    self2 = self1\<lparr>montage := m3\<rparr>;
                    self3 = (if by_row self2 then self2\<lparr>col := col self2 + 1\<rparr>
                             else self2\<lparr>row := row self2 + 1\<rparr>)
                in Inr (self3\<lparr>counter := counter self3 + 1\<rparr>))"

text \<open>
  A sequence of calls, as the loop of the script makes them (168-170), each with its
  image, label and highlight flag; the first exception ends the sequence.
\<close>

fun add_results ::
  "cv2 \<Rightarrow> results_montage \<Rightarrow> (ndarray \<times> string option \<times> bool) list \<Rightarrow>
   (error \<times> results_montage) + results_montage" where
  "add_results cv self [] = Inr self"
| "add_results cv self (c # cs) =
     (case add_result cv self (fst c) (fst (snd c)) (snd (snd c)) of
        Inl e \<Rightarrow> Inl e
      | Inr self' \<Rightarrow> add_results cv self' cs)"

text \<open>
  Vocabulary of the claims: the number of cells of the allocated canvas, the slice the
  next call assigns, and when two slices share no position and lie inside an array.
\<close>

definition capacity :: "results_montage \<Rightarrow> int" where
  "capacity self = (dim0 (montage self) div imageW self) * (dim1 (montage self) div imageH self)"

definition next_slice :: "results_montage \<Rightarrow> (int \<times> int) \<times> (int \<times> int)" where
  "next_slice self = cursor_slice (wrap_cursor self)"

definition next_cell :: "results_montage \<Rightarrow> int \<times> int" where
  "next_cell self = (row (wrap_cursor self), col (wrap_cursor self))"

definition in_slice :: "(int \<times> int) \<times> (int \<times> int) \<Rightarrow> int \<Rightarrow> int \<Rightarrow> bool" where
  "in_slice s y x = (fst (fst s) \<le> y \<and> y < snd (fst s) \<and> fst (snd s) \<le> x \<and> x < snd (snd s))"

definition disjoint_slices :: "(int \<times> int) \<times> (int \<times> int) \<Rightarrow> (int \<times> int) \<times> (int \<times> int) \<Rightarrow> bool" where
  "disjoint_slices s t =
     (snd (fst s) \<le> fst (fst t) \<or> snd (fst t) \<le> fst (fst s)
      \<or> snd (snd s) \<le> fst (snd t) \<or> snd (snd t) \<le> fst (snd s))"

definition inside :: "(int \<times> int) \<times> (int \<times> int) \<Rightarrow> ndarray \<Rightarrow> bool" where
  "inside s a =
     (0 \<le> fst (fst s) \<and> fst (fst s) < snd (fst s) \<and> snd (fst s) \<le> dim0 a
      \<and> 0 \<le> fst (snd s) \<and> fst (snd s) < snd (snd s) \<and> snd (snd s) \<le> dim1 a)"

definition nonempty :: "ndarray \<Rightarrow> bool" where
  "nonempty a = (0 < dim0 a \<and> 0 < dim1 a)"

text \<open>
  The cursor after \<open>k\<close> successful calls, before the next call wraps it; the fields a
  call never changes; and the cell of the \<open>k\<close>-th placement in the configured order.
\<close>

definition cursor_at :: "results_montage \<Rightarrow> int \<Rightarrow> bool" where
  "cursor_at self k =
     (counter self = k \<and>
      (if k = 0 then row self = 0 \<and> col self = 0
       else if by_row self
            then row self = (k - 1) div images_per_main_axis self
                 \<and> col self = (k - 1) mod images_per_main_axis self + 1
            else col self = (k - 1) div images_per_main_axis self
                 \<and> row self = (k - 1) mod images_per_main_axis self + 1))"

definition same_frame :: "results_montage \<Rightarrow> results_montage \<Rightarrow> bool" where
  "same_frame self m =
     (imageW self = imageW m \<and> imageH self = imageH m
      \<and> images_per_main_axis self = images_per_main_axis m \<and> by_row self = by_row m
      \<and> dim0 (montage self) = dim0 (montage m) \<and> dim1 (montage self) = dim1 (montage m))"

definition cell_of :: "bool \<Rightarrow> int \<Rightarrow> int \<Rightarrow> int \<times> int" where
  "cell_of byrow per_axis k =
     (if byrow then (k div per_axis, k mod per_axis) else (k mod per_axis, k div per_axis))"

definition cell_slice :: "int \<Rightarrow> int \<Rightarrow> int \<times> int \<Rightarrow> (int \<times> int) \<times> (int \<times> int)" where
  "cell_slice w h rc = ((fst rc * w, (fst rc + 1) * w), (snd rc * h, (snd rc + 1) * h))"

subsection \<open>Example data for the montage\<close>

definition cv_nearest :: cv2 where
  "cv_nearest =
     \<lparr>interp = (\<lambda>img h w y x. px img (y * dim0 img div h) (x * dim1 img div w)),
      interp_area = (\<lambda>img h w y x. px img (y * dim0 img div h) (x * dim1 img div w)),
      putText = (\<lambda>a t org y x. px a y x),
      rectangle = (\<lambda>a p q y x. px a y x)\<rparr>"

definition img1 :: "nat \<Rightarrow> ndarray" where
  "img1 k = \<lparr>dim0 = 1, dim1 = 1, px = (\<lambda>y x. (k, k, k))\<rparr>"

definition plain :: "nat \<Rightarrow> ndarray \<times> string option \<times> bool" where
  "plain k = (img1 k, None, False)"

definition empty_image :: ndarray where
  "empty_image = \<lparr>dim0 = 0, dim1 = 0, px = (\<lambda>y x. (0, 0, 0))\<rparr>"


section \<open>Album mosaic: the dominant colour\<close>



text \<open>
  \<^verbatim>\<open>Counter(labels).most_common(1)\<close>: a Counter keeps its keys in the order of their
  first occurrence, and \<open>most_common(1)\<close> is the first entry with the greatest count (the
  library takes \<open>max\<close> over the entries), or nothing for an empty Counter.
\<close>

fun counter_keys :: "'a list \<Rightarrow> 'a list" where
  "counter_keys [] = []"
| "counter_keys (x # xs) = x # removeAll x (counter_keys xs)"




subsection \<open>Example data for the dominant colour\<close>



section \<open>Properties of the date filter\<close>

lemma filter_loop_acc:
  "(\<forall>it\<in>set tracks. track it \<noteq> None \<longrightarrow> parses sp it) \<Longrightarrow>
   filter_loop sp tracks T acc =
     Inr (acc @ filter (\<lambda>it. track it \<noteq> None \<and> newer_than sp T it) tracks)"
proof (induction tracks arbitrary: acc)
  case Nil
  then show ?case by simp
next
  case (Cons item tracks)
  then show ?case
    by (auto simp: parses_def newer_than_def split: sum.splits)
qed

lemma filter_loop_nonnull:
  "filter_loop sp tracks T acc = Inr ys \<Longrightarrow> (\<forall>it\<in>set acc. track it \<noteq> None) \<Longrightarrow>
   (\<forall>it\<in>set ys. track it \<noteq> None)"
proof (induction tracks arbitrary: acc)
  case Nil
  then show ?case by simp
next
  case (Cons item tracks)
  show ?case
  proof (cases "track item")
    case None
    with Cons show ?thesis by simp
  next
    case (Some t)
    show ?thesis
    proof (cases "sp (added_at item)")
      case (Inl e)
      with Some Cons.prems(1) show ?thesis by simp
    next
      case (Inr d)
      show ?thesis
      proof (cases "d > T")
        case True
        with Some Inr Cons.prems(1) have "filter_loop sp tracks T (acc @ [item]) = Inr ys" by simp
        moreover have "\<forall>it\<in>set (acc @ [item]). track it \<noteq> None"
          using Some Cons.prems(2) by auto
        ultimately show ?thesis by (rule Cons.IH)
      next
        case False
        with Some Inr Cons.prems(1) have "filter_loop sp tracks T acc = Inr ys" by simp
        then show ?thesis using Cons.prems(2) by (rule Cons.IH)
      qed
    qed
  qed
qed

lemma filter_loop_skip_null:
  "filter_loop sp tracks T acc = filter_loop sp (filter (\<lambda>it. track it \<noteq> None) tracks) T acc"
  by (induction tracks arbitrary: acc) (auto split: sum.splits)

text \<open>
  C3, as the code has it: the filter returns, in their original order, exactly the entries
  whose track is not null and whose \<open>added_at\<close> is strictly greater than the cursor,
  provided the timestamps of the entries it reads are well formed; when no such entry is
  newer than the cursor (the cursor is at or after every \<open>added_at\<close>), the result is the
  empty list.
\<close>

theorem filter_songs_by_date_exact:
  "(\<forall>it\<in>set tracks. track it \<noteq> None \<longrightarrow> parses sp it) \<Longrightarrow>
   filter_songs_by_date sp tracks T =
     Inr (filter (\<lambda>it. track it \<noteq> None \<and> newer_than sp T it) tracks)
   \<and> ((\<forall>it\<in>set tracks. track it \<noteq> None \<longrightarrow> \<not> newer_than sp T it) \<longrightarrow>
        filter_songs_by_date sp tracks T = Inr [])"
proof -
  assume a: "\<forall>it\<in>set tracks. track it \<noteq> None \<longrightarrow> parses sp it"
  have r: "filter_songs_by_date sp tracks T =
        Inr (filter (\<lambda>it. track it \<noteq> None \<and> newer_than sp T it) tracks)"
    using a by (simp add: filter_songs_by_date_def filter_loop_acc)
  have "(\<forall>it\<in>set tracks. track it \<noteq> None \<longrightarrow> \<not> newer_than sp T it) \<Longrightarrow>
        filter (\<lambda>it. track it \<noteq> None \<and> newer_than sp T it) tracks = []"
    by (induction tracks) auto
  with r show ?thesis by simp
qed

text \<open>
  The second scenario of the specification: entries added on 2024-01-01, 2024-06-01 and
  2024-12-01 with the cursor at 2024-05-01 give the last two, in order; with the cursor
  after all of them the result is empty.
\<close>

theorem filter_songs_by_date_exact_witness:
  "filter_songs_by_date strptime_z [item_jan, item_jun, item_dec] cursor_may
     = Inr [item_jun, item_dec]
   \<and> filter_songs_by_date strptime_z [item_jan, item_jun, item_dec] cursor_2025 = Inr []"
proof -
  have h: "\<forall>it\<in>set [item_jan, item_jun, item_dec]. track it \<noteq> None \<longrightarrow> parses strptime_z it"
    by code_simp
  have e: "filter (\<lambda>it. track it \<noteq> None \<and> newer_than strptime_z cursor_may it)
             [item_jan, item_jun, item_dec] = [item_jun, item_dec]"
    by code_simp
  have o: "\<forall>it\<in>set [item_jan, item_jun, item_dec].
             track it \<noteq> None \<longrightarrow> \<not> newer_than strptime_z cursor_2025 it"
    by code_simp
  have a: "filter_songs_by_date strptime_z [item_jan, item_jun, item_dec] cursor_may
             = Inr [item_jun, item_dec]"
    using filter_songs_by_date_exact [OF h, of cursor_may, THEN conjunct1] unfolding e .
  have b: "filter_songs_by_date strptime_z [item_jan, item_jun, item_dec] cursor_2025 = Inr []"
    using filter_songs_by_date_exact [OF h, of cursor_2025, THEN conjunct2] o by (rule mp)
  show ?thesis using a b by (rule conjI)
qed

text \<open>
  C3 as stated fails: an entry with a null track that is newer than the cursor is not
  returned.
\<close>

theorem filter_songs_by_date_null_counterexample:
  "newer_than strptime_z cursor_may item_null_jun
   \<and> filter_songs_by_date strptime_z [item_null_jun] cursor_may = Inr []
   \<and> filter_songs_by_date strptime_z [item_null_jun] cursor_may
       \<noteq> Inr (filter (newer_than strptime_z cursor_may) [item_null_jun])"
  by code_simp

text \<open>
  C9: an entry whose track is null never appears in the returned list, whatever its
  \<open>added_at\<close>; the filter gives the same result as on the list without the null-track
  entries.
\<close>

theorem filter_songs_by_date_skips_null:
  "filter_songs_by_date sp tracks T
     = filter_songs_by_date sp (filter (\<lambda>it. track it \<noteq> None) tracks) T
   \<and> (\<forall>ys. filter_songs_by_date sp tracks T = Inr ys \<longrightarrow> (\<forall>it\<in>set ys. track it \<noteq> None))"
proof -
  have "\<And>ys. filter_loop sp tracks T [] = Inr ys \<Longrightarrow> \<forall>it\<in>set ys. track it \<noteq> None"
    using filter_loop_nonnull [of sp tracks T "[]"] by simp
  then show ?thesis
    unfolding filter_songs_by_date_def using filter_loop_skip_null [of sp tracks T "[]"] by blast
qed

theorem filter_songs_by_date_skips_null_witness:
  "filter_songs_by_date strptime_z [item_null_jun, item_jan, item_dec] cursor_may = Inr [item_dec]
   \<and> newer_than strptime_z cursor_may item_null_jun
   \<and> track item_dec \<noteq> None"
proof -
  have r: "filter_songs_by_date strptime_z [item_null_jun, item_jan, item_dec] cursor_may
             = Inr [item_dec]"
    by code_simp
  have n: "newer_than strptime_z cursor_may item_null_jun" by code_simp
  show ?thesis
    using filter_songs_by_date_skips_null [of strptime_z "[item_null_jun, item_jan, item_dec]" cursor_may]
          r n
    by simp
qed

section \<open>Properties of the cursor file\<close>

lemma digit_val_char: "d < 10 \<Longrightarrow> digit_val (digit_char d) = Some d"
  by (simp add: digit_val_def digit_char_def Let_def)

lemma length_zpad [simp]: "length (zpad w n) = w"
  by (induction w arbitrary: n) simp_all

lemma digits_val_append:
  "digits_val (xs @ ys) acc = (case digits_val xs acc of None \<Rightarrow> None | Some a \<Rightarrow> digits_val ys a)"
  by (induction xs arbitrary: acc) (simp_all split: option.splits)

lemma digits_val_zpad: "n < 10 ^ w \<Longrightarrow> digits_val (zpad w n) acc = Some (acc * 10 ^ w + n)"
proof (induction w arbitrary: n acc)
  case 0
  then show ?case by simp
next
  case (Suc w)
  have "n div 10 < 10 ^ w" using Suc.prems by (simp add: less_mult_imp_div_less mult.commute)
  then have "digits_val (zpad w (n div 10)) acc = Some (acc * 10 ^ w + n div 10)" by (rule Suc.IH)
  moreover have "digit_val (digit_char (n mod 10)) = Some (n mod 10)" by (simp add: digit_val_char)
  ultimately show ?case by (simp add: digits_val_append algebra_simps)
qed

lemma parse_zpad: "n < 10 ^ w \<Longrightarrow> parse_num (zpad w n) = Some n"
  by (simp add: parse_num_def digits_val_zpad)


lemma days_in_month_le: "days_in_month y m \<le> 31"
  by (simp add: days_in_month_def)

lemma fromisoformat_isoformat:
  assumes "valid_datetime dt"
  shows "fromisoformat (isoformat dt) = Inr dt"
proof -
  obtain y mo d h mi s us where dt: "dt = (y, mo, d, h, mi, s, us)"
    by (metis prod_cases7)
  have v: "valid_datetime (y, mo, d, h, mi, s, us)" using assms dt by simp
  then have "d \<le> days_in_month y mo" by (simp add: valid_datetime_def)
  then have d31: "d \<le> 31" using days_in_month_le [of y mo] by simp
  have b: "y < 10 ^ 4" "mo < 10 ^ 2" "d < 10 ^ 2" "h < 10 ^ 2" "mi < 10 ^ 2" "s < 10 ^ 2"
    "us < 10 ^ 6"
    using v d31 by (simp_all add: valid_datetime_def)
  note p = parse_zpad [OF b(1)] parse_zpad [OF b(2)] parse_zpad [OF b(3)] parse_zpad [OF b(4)]
    parse_zpad [OF b(5)] parse_zpad [OF b(6)] parse_zpad [OF b(7)]
  have e: "parse_num [] = Some 0" by (simp add: parse_num_def)
  show ?thesis
  proof (cases "us = 0")
    case True
    then show ?thesis using v
      by (simp add: dt isoformat_def fromisoformat_def nth_append p e)
  next
    case False
    then show ?thesis using v
      by (simp add: dt isoformat_def fromisoformat_def nth_append p e)
  qed
qed

text \<open>
  C5: reading the cursor file with \<open>load_last_run_date\<close> after \<open>save_last_run_date\<close>
  wrote it yields the timestamp that was written, down to the microsecond, whatever the
  clock at the time of reading; the file holds the single field \<open>last_run\<close> with the
  ISO-8601 text of that timestamp.
\<close>

theorem load_after_save:
  "valid_datetime (now c) \<Longrightarrow>
   load_last_run_date c' (save_last_run_date c fs) = Inr (now c)
   \<and> last_run_file (save_last_run_date c fs) = Some [(''last_run'', isoformat (now c))]"
  by (simp add: load_last_run_date_def save_last_run_date_def fromisoformat_isoformat)

theorem load_after_save_witness:
  "load_last_run_date (clock_at (2025, 1, 1, 0, 0, 0, 0))
     (save_last_run_date (clock_at (2024, 2, 29, 23, 59, 7, 4500)) no_files)
     = Inr (2024, 2, 29, 23, 59, 7, 4500)
   \<and> last_run_file (save_last_run_date (clock_at (2024, 2, 29, 23, 59, 7, 4500)) no_files)
     = Some [(''last_run'', ''2024-02-29T23:59:07.004500'')]"
proof -
  have v: "valid_datetime (now (clock_at (2024, 2, 29, 23, 59, 7, 4500)))"
    by (simp add: clock_at_def valid_datetime_def days_in_month_def is_leap_def)
  have t: "isoformat (2024, 2, 29, 23, 59, 7, 4500) = ''2024-02-29T23:59:07.004500''"
    by code_simp
  show ?thesis
    using load_after_save [OF v, of "clock_at (2025, 1, 1, 0, 0, 0, 0)" no_files] t
    by (simp add: clock_at_def)
qed

section \<open>Properties of the batched write\<close>

lemma chunks_take:
  "concat (map (\<lambda>j. take b (drop (j * b) xs)) [0..<m]) = take (m * b) xs"
proof (induction m)
  case 0
  then show ?case by simp
next
  case (Suc m)
  have "take (m * b) xs @ take b (drop (m * b) xs) = take (m * b + b) xs"
    by (simp add: take_add)
  with Suc show ?case by (simp add: add.commute)
qed

lemma chunk_props:
  fixes u :: "'a list"
  defines "bs \<equiv> map (\<lambda>i. take 100 (drop i u)) (py_range 0 (length u) 100)"
  shows "length bs = (length u + 99) div 100" and "\<forall>b\<in>set bs. length b \<le> 100" and "concat bs = u"
proof -
  show "length bs = (length u + 99) div 100" by (simp add: bs_def py_range_def)
  show "\<forall>b\<in>set bs. length b \<le> 100" by (auto simp: bs_def)
  have le: "length u \<le> (length u + 99) div 100 * 100" by presburger
  have "concat bs = concat (map (\<lambda>j. take 100 (drop (j * 100) u)) [0..<(length u + 99) div 100])"
    by (simp add: bs_def py_range_def comp_def add.commute)
  also have "\<dots> = take ((length u + 99) div 100 * 100) u" by (rule chunks_take)
  also have "\<dots> = u" using le by simp
  finally show "concat bs = u" .
qed

lemma answers_send:
  assumes "answers n"
  shows "\<exists>r. send n rq = (Inr r, n\<lparr>sent := sent n @ [rq]\<rparr>)"
    and "answers (n\<lparr>sent := sent n @ [rq]\<rparr>)"
  using assms by (auto simp: answers_def send_def)

lemma add_batches_oauth_sent:
  "answers n \<Longrightarrow>
   \<exists>t ms'. add_batches_oauth p u tok is tot ms n =
     (Inr t, ms', n\<lparr>sent := sent n @ map (\<lambda>i. PostTracks (tracks_url p) tok (take 100 (drop i u))) is\<rparr>)"
proof (induction "is" arbitrary: tot ms n)
  case Nil
  then show ?case by simp
next
  case (Cons i "is")
  let ?rq = "PostTracks (tracks_url p) tok (take 100 (drop i u))"
  let ?n' = "n\<lparr>sent := sent n @ [?rq]\<rparr>"
  from answers_send [OF Cons.prems, of ?rq] obtain r where
    s: "send n ?rq = (Inr r, ?n')" and a: "answers ?n'" by blast
  have e: "?n'\<lparr>sent := sent ?n' @ map (\<lambda>i. PostTracks (tracks_url p) tok (take 100 (drop i u))) is\<rparr>
           = n\<lparr>sent := sent n @ map (\<lambda>i. PostTracks (tracks_url p) tok (take 100 (drop i u))) (i # is)\<rparr>"
    by simp
  show ?case
    using Cons.IH [OF a] by (simp add: s Let_def)
qed

lemma add_batches_sent:
  "answers n \<Longrightarrow>
   \<exists>ms'. add_batches p u tok is ms n =
     (Inr (), ms', n\<lparr>sent := sent n @ map (\<lambda>i. PostTracks (tracks_url p) tok (take 100 (drop i u))) is\<rparr>)"
proof (induction "is" arbitrary: ms n)
  case Nil
  then show ?case by simp
next
  case (Cons i "is")
  let ?rq = "PostTracks (tracks_url p) tok (take 100 (drop i u))"
  let ?n' = "n\<lparr>sent := sent n @ [?rq]\<rparr>"
  from answers_send [OF Cons.prems, of ?rq] obtain r where
    s: "send n ?rq = (Inr r, ?n')" and a: "answers ?n'" by blast
  have e: "?n'\<lparr>sent := sent ?n' @ map (\<lambda>i. PostTracks (tracks_url p) tok (take 100 (drop i u))) is\<rparr>
           = n\<lparr>sent := sent n @ map (\<lambda>i. PostTracks (tracks_url p) tok (take 100 (drop i u))) (i # is)\<rparr>"
    by simp
  show ?case
    using Cons.IH [OF a] by (simp add: s Let_def)
qed

text \<open>
  C4, as the code has it: on a network that answers every call with a response, whatever
  its status, both versions of \<open>add_tracks_to_playlist\<close> return and issue the same write
  calls for a list of n track URIs: ceil(n/100) of them, each carrying at most 100 URIs,
  the carried batches concatenating to the input in order. The statuses of the answers
  play no part in the calls.
\<close>

theorem add_tracks_to_playlist_batches:
  "answers n \<Longrightarrow>
   (let bs = map (\<lambda>i. take 100 (drop i track_uris)) (py_range 0 (length track_uris) 100)
    in issued n (snd (snd (add_tracks_to_playlist_oauth pid track_uris tok n)))
         = map (PostTracks (tracks_url pid) tok) bs
     \<and> issued n (snd (snd (add_tracks_to_playlist pid track_uris tok n)))
         = map (PostTracks (tracks_url pid) tok) bs
     \<and> (\<exists>t. fst (add_tracks_to_playlist_oauth pid track_uris tok n) = Inr t)
     \<and> fst (add_tracks_to_playlist pid track_uris tok n) = Inr ()
     \<and> length bs = (length track_uris + 99) div 100
     \<and> (\<forall>b\<in>set bs. length b \<le> 100)
     \<and> concat bs = track_uris)"
proof -
  assume a: "answers n"
  let ?is = "py_range 0 (length track_uris) 100"
  from add_batches_oauth_sent [OF a, of pid track_uris tok ?is 0 "[]"] obtain t ms' where
    o: "add_tracks_to_playlist_oauth pid track_uris tok n =
          (Inr t, ms', n\<lparr>sent := sent n @ map (\<lambda>i. PostTracks (tracks_url pid) tok
                                                   (take 100 (drop i track_uris))) ?is\<rparr>)"
    unfolding add_tracks_to_playlist_oauth_def by blast
  from add_batches_sent [OF a, of pid track_uris tok ?is "[]"] obtain ms'' where
    b: "add_tracks_to_playlist pid track_uris tok n =
          (Inr (), ms'', n\<lparr>sent := sent n @ map (\<lambda>i. PostTracks (tracks_url pid) tok
                                                   (take 100 (drop i track_uris))) ?is\<rparr>)"
    unfolding add_tracks_to_playlist_def by blast
  have io: "issued n (snd (snd (add_tracks_to_playlist_oauth pid track_uris tok n)))
         = map (PostTracks (tracks_url pid) tok) (map (\<lambda>i. take 100 (drop i track_uris)) ?is)"
    by (simp add: o issued_def comp_def)
  have ib: "issued n (snd (snd (add_tracks_to_playlist pid track_uris tok n)))
         = map (PostTracks (tracks_url pid) tok) (map (\<lambda>i. take 100 (drop i track_uris)) ?is)"
    by (simp add: b issued_def comp_def)
  have ro: "\<exists>t. fst (add_tracks_to_playlist_oauth pid track_uris tok n) = Inr t" by (simp add: o)
  have rb: "fst (add_tracks_to_playlist pid track_uris tok n) = Inr ()" by (simp add: b)
  show ?thesis
    unfolding Let_def using io ib ro rb chunk_props [of track_uris] by blast
qed

text \<open>
  The third scenario of the specification: 250 URIs give three calls of sizes 100, 100
  and 50, here against a service that rejects the second call, so that 150 tracks are
  counted as added.
\<close>

theorem add_tracks_to_playlist_batches_witness:
  "map (length \<circ> batch_of)
     (issued net_second_fails
        (snd (snd (add_tracks_to_playlist_oauth ''p'' uris250 ''t'' net_second_fails))))
     = [100, 100, 50]
   \<and> map (length \<circ> batch_of)
     (issued net_second_fails
        (snd (snd (add_tracks_to_playlist ''p'' uris250 ''t'' net_second_fails))))
     = [100, 100, 50]
   \<and> fst (add_tracks_to_playlist_oauth ''p'' uris250 ''t'' net_second_fails) = Inr 150"
proof -
  have a: "answers net_second_fails" by (simp add: answers_def net_second_fails_def)
  have e: "map (\<lambda>i. length (take 100 (drop i uris250))) (py_range 0 (length uris250) 100)
             = [100, 100, 50]"
    by (simp add: uris250_def py_range_def upt_rec)
  have t: "fst (add_tracks_to_playlist_oauth ''p'' uris250 ''t'' net_second_fails) = Inr 150"
    by (simp add: add_tracks_to_playlist_oauth_def py_range_def upt_rec
          send_def net_second_fails_def uris250_def Let_def)
  note T = add_tracks_to_playlist_batches [OF a, of uris250 "''p''" "''t''", unfolded Let_def]
  have x: "map (length \<circ> batch_of)
     (issued net_second_fails
        (snd (snd (add_tracks_to_playlist_oauth ''p'' uris250 ''t'' net_second_fails))))
     = [100, 100, 50]"
    using T e by (simp only: map_map comp_def batch_of.simps)
  have y: "map (length \<circ> batch_of)
     (issued net_second_fails
        (snd (snd (add_tracks_to_playlist ''p'' uris250 ''t'' net_second_fails))))
     = [100, 100, 50]"
    using T e by (simp only: map_map comp_def batch_of.simps)
  show ?thesis using x y t by blast
qed

text \<open>
  C4 as stated fails when a call raises in the transport: the loop has no handler, so with
  250 URIs and a second call that raises only two calls are issued, not three, and the
  function ends with the exception.
\<close>

theorem add_tracks_to_playlist_raise_counterexample:
  "map (length \<circ> batch_of)
     (issued net_second_raises
        (snd (snd (add_tracks_to_playlist_oauth ''p'' uris250 ''t'' net_second_raises))))
     = [100, 100]
   \<and> fst (add_tracks_to_playlist_oauth ''p'' uris250 ''t'' net_second_raises) = Inl ConnectionError
   \<and> map (length \<circ> batch_of)
     (issued net_second_raises
        (snd (snd (add_tracks_to_playlist ''p'' uris250 ''t'' net_second_raises))))
     = [100, 100]
   \<and> (length uris250 + 99) div 100 = 3"
  by (simp add: add_tracks_to_playlist_oauth_def add_tracks_to_playlist_def py_range_def upt_rec
        send_def net_second_raises_def uris250_def Let_def issued_def)

section \<open>Properties of one run of the tracker\<close>

lemma process_playlist_failure:
  assumes "reply (network st) (sent (network st))
             (GetUrl (playlist_url (extract_playlist_id link)) tok) = Inr r"
    and "status_code r \<noteq> 200"
  shows "process_playlist fuel sp tok last_run n_links st (idx, link)
           = Some (after_failed_read st idx n_links link tok (status_code r))"
  using assms
  by (simp add: process_playlist_def get_playlist_with_dates_def send_def Let_def
        after_failed_read_def)

lemma process_playlists_append:
  "process_playlists fuel sp tok last_run n_links st (xs @ ys) =
     (case process_playlists fuel sp tok last_run n_links st xs of
        None \<Rightarrow> None
      | Some st1 \<Rightarrow> process_playlists fuel sp tok last_run n_links st1 ys)"
  by (induction xs arbitrary: st) (simp_all split: option.splits)

text \<open>
  C6, as the code has it, for the read of a playlist: when the loop of \<open>main\<close> has
  processed the playlists before a link and the first read of that playlist is answered
  with a status other than 200, the processing of that playlist ends there: the failure
  is printed with the link and the status, no track and no log entry is added, and the
  loop goes on with the playlists after it, from a state that differs from the one
  before only in the printed lines and in the request that was sent.
\<close>

theorem playlist_failure_is_local:
  assumes "process_playlists fuel sp tok last_run n_links st before = Some st1"
    and "reply (network st1) (sent (network st1))
           (GetUrl (playlist_url (extract_playlist_id link)) tok) = Inr r"
    and "status_code r \<noteq> 200"
  shows "process_playlist fuel sp tok last_run n_links st1 (idx, link)
           = Some (after_failed_read st1 idx n_links link tok (status_code r))
     \<and> all_new_tracks (after_failed_read st1 idx n_links link tok (status_code r))
           = all_new_tracks st1
     \<and> log_data (after_failed_read st1 idx n_links link tok (status_code r)) = log_data st1
     \<and> out (after_failed_read st1 idx n_links link tok (status_code r))
           = out st1 @ [ProcessingPlaylist idx n_links (extract_playlist_id link),
                        ErrorProcessing link (Exception ''Failed to get playlist'' (status_code r))]
     \<and> sent (network (after_failed_read st1 idx n_links link tok (status_code r)))
           = sent (network st1) @ [GetUrl (playlist_url (extract_playlist_id link)) tok]
     \<and> process_playlists fuel sp tok last_run n_links st (before @ (idx, link) # rest)
           = process_playlists fuel sp tok last_run n_links
               (after_failed_read st1 idx n_links link tok (status_code r)) rest"
proof -
  note f = process_playlist_failure [OF assms(2,3)]
  have "process_playlists fuel sp tok last_run n_links st (before @ (idx, link) # rest)
           = process_playlists fuel sp tok last_run n_links st1 ((idx, link) # rest)"
    by (simp add: process_playlists_append assms(1))
  then show ?thesis using f by (simp add: after_failed_read_def)
qed

text \<open>
  Two playlists, the first unknown to the service (404): its failure is printed, and the
  second is processed and gives the one log entry of the run.
\<close>

theorem playlist_failure_is_local_witness:
  "case process_playlists 5 strptime_z ''tok'' cursor_may 2 start_state
          [(1, ''bad''), (2, ''good1'')] of
     None \<Rightarrow> False
   | Some st \<Rightarrow>
       map log_playlist_id (log_data st) = [''good1'']
       \<and> all_new_tracks st = [item_jun]
       \<and> out st ! 1 = ErrorProcessing ''bad'' (Exception ''Failed to get playlist'' 404)"
proof -
  let ?r = "\<lparr>status_code = 404, resp_text = ''not found'', json = NoBody\<rparr>"
  have b: "process_playlists 5 strptime_z ''tok'' cursor_may 2 start_state [] = Some start_state"
    by simp
  have c: "reply (network start_state) (sent (network start_state))
             (GetUrl (playlist_url (extract_playlist_id ''bad'')) ''tok'') = Inr ?r"
    by (simp add: start_state_def net_of_def service_def extract_playlist_id_def playlist_url_def)
  have n: "status_code ?r \<noteq> 200" by simp
  note T = playlist_failure_is_local [OF b c n, of 1 "[(2, ''good1'')]"]
  have e: "case process_playlists 5 strptime_z ''tok'' cursor_may 2
             (after_failed_read start_state 1 2 ''bad'' ''tok'' 404) [(2, ''good1'')] of
     None \<Rightarrow> False
   | Some st \<Rightarrow>
       map log_playlist_id (log_data st) = [''good1'']
       \<and> all_new_tracks st = [item_jun]
       \<and> out st ! 1 = ErrorProcessing ''bad'' (Exception ''Failed to get playlist'' 404)"
    by code_simp
  from T have "process_playlists 5 strptime_z ''tok'' cursor_may 2 start_state
                 [(1, ''bad''), (2, ''good1'')]
               = process_playlists 5 strptime_z ''tok'' cursor_may 2
                   (after_failed_read start_state 1 2 ''bad'' ''tok'' 404) [(2, ''good1'')]"
    by simp
  then show ?thesis using e by simp
qed

text \<open>
  C6 as stated fails for the token: \<open>main\<close> gets the token once, before the loop and
  outside its \<^verbatim>\<open>try\<close>. When that request is answered 401 the run ends with the
  exception: no playlist is read, although the service knows both, and the cursor file is
  not written.
\<close>

theorem token_failure_aborts_run_counterexample:
  "case main 5 strptime_z (clock_at (2024, 7, 1, 0, 0, 0, 0)) [''good1'', ''good2''] None
          (net_of 401) no_files of
     None \<Rightarrow> False
   | Some (res, ms, n, fs) \<Rightarrow>
       res = Inl (Exception ''Failed to get access token'' 401)
       \<and> sent n = [PostClientCredentials CLIENT_ID CLIENT_SECRET]
       \<and> last_run_file fs = None"
  by code_simp

section \<open>Properties of the user token\<close>

lemma refresh_failure:
  assumes "reply n (sent n) (PostRefreshToken cid cs rt) = Inr r" and "status_code r \<noteq> 200"
  shows "refresh_access_token cid cs rt c n fs =
     (Inr None, [ErrorRefreshing (status_code r)],
      n\<lparr>sent := sent n @ [PostRefreshToken cid cs rt]\<rparr>, fs\<lparr>token_cache_file := None\<rparr>)"
  using assms by (simp add: refresh_access_token_def send_def Let_def)

lemma no_cache_authorizes:
  "token_cache_file fs = None \<Longrightarrow>
   get_user_token cid cs ruri c resp n fs = authorize cid cs ruri c resp n fs"
  by (simp add: get_user_token_def)

lemma authorize_prompts: "PromptRedirect \<in> set (fst (snd (authorize cid cs ruri c resp n fs)))"
  by (simp add: authorize_def Let_def send_def split: prod.splits body.splits sum.splits)

text \<open>
  C7: when the refresh request is answered with a status other than 200,
  \<open>refresh_access_token\<close> returns no token (\<^verbatim>\<open>None\<close>) and leaves no token cache file;
  every later \<open>get_user_token\<close> on the files it leaves is the interactive authorization,
  which prompts the user for the redirect URL. And \<open>get_user_token\<close> on a cache whose
  token has expired and that holds a refresh token is that refresh.
\<close>

theorem refresh_failure_forces_authorization:
  assumes "reply n (sent n) (PostRefreshToken cid cs rt) = Inr r" and "status_code r \<noteq> 200"
  shows "(case refresh_access_token cid cs rt c n fs of
            (res, ms, n', fs') \<Rightarrow>
              res = Inr None \<and> token_cache_file fs' = None
              \<and> (\<forall>ruri c2 resp n2.
                    get_user_token cid cs ruri c2 resp n2 fs' = authorize cid cs ruri c2 resp n2 fs'
                    \<and> PromptRedirect \<in> set (fst (snd (get_user_token cid cs ruri c2 resp n2 fs')))))
         \<and> (\<forall>td expires ruri resp.
               token_cache_file fs = Some td \<and> fromisoformat (cached_expires_at td) = Inr expires
               \<and> \<not> now c < shift c expires (- 300) \<and> cached_refresh_token td = Some rt \<longrightarrow>
               get_user_token cid cs ruri c resp n fs = refresh_access_token cid cs rt c n fs)"
proof -
  have a: "token_cache_file (fs\<lparr>token_cache_file := None\<rparr>) = None" by simp
  have p1: "case refresh_access_token cid cs rt c n fs of
            (res, ms, n', fs') \<Rightarrow>
              res = Inr None \<and> token_cache_file fs' = None
              \<and> (\<forall>ruri c2 resp n2.
                    get_user_token cid cs ruri c2 resp n2 fs' = authorize cid cs ruri c2 resp n2 fs'
                    \<and> PromptRedirect \<in> set (fst (snd (get_user_token cid cs ruri c2 resp n2 fs'))))"
    unfolding refresh_failure [OF assms] prod.case
    using no_cache_authorizes [OF a] authorize_prompts by simp
  have p2: "\<forall>td expires ruri resp.
               token_cache_file fs = Some td \<and> fromisoformat (cached_expires_at td) = Inr expires
               \<and> \<not> now c < shift c expires (- 300) \<and> cached_refresh_token td = Some rt \<longrightarrow>
               get_user_token cid cs ruri c resp n fs = refresh_access_token cid cs rt c n fs"
    by (intro allI impI) (simp add: get_user_token_def)
  show ?thesis using p1 p2 by (rule conjI)
qed

text \<open>
  A cache that expired in January, used in July with a service that answers the refresh
  with 400: no token and no cache file; the next call, five minutes later, prompts the
  user and exchanges the pasted code for a token.
\<close>

theorem refresh_failure_forces_authorization_witness:
  "(case get_user_token ''id'' ''secret'' ''http://localhost:8888/callback''
           (clock_at (2024, 7, 1, 0, 0, 0, 0)) '''' (net_of 400) expired_cache of
      (res, ms, n', fs') \<Rightarrow>
        res = Inr None \<and> token_cache_file fs' = None
        \<and> (case get_user_token ''id'' ''secret'' ''http://localhost:8888/callback''
                   (clock_at (2024, 7, 1, 0, 5, 0, 0))
                   ''http://localhost:8888/callback?code=abc'' (net_of 200) fs' of
              (res2, ms2, n2, fs2) \<Rightarrow>
                res2 = Inr (Some ''tok'') \<and> PromptRedirect \<in> set ms2
                \<and> sent n2 = [PostAuthCode ''abc'' ''http://localhost:8888/callback'' ''id'' ''secret'']))"
proof -
  let ?c = "clock_at (2024, 7, 1, 0, 0, 0, 0)"
  let ?c2 = "clock_at (2024, 7, 1, 0, 5, 0, 0)"
  let ?u = "''http://localhost:8888/callback''"
  let ?r = "\<lparr>status_code = 400, resp_text = ''denied'', json = NoBody\<rparr>"
  let ?td = "\<lparr>cached_access_token = ''old'', cached_refresh_token = Some (Some ''r1''),
               cached_expires_at = ''2024-01-01T00:00:00''\<rparr>"
  let ?fs = "expired_cache\<lparr>token_cache_file := None\<rparr>"
  let ?n = "(net_of 400)\<lparr>sent := sent (net_of 400) @ [PostRefreshToken ''id'' ''secret'' (Some ''r1'')]\<rparr>"
  have h: "reply (net_of 400) (sent (net_of 400))
             (PostRefreshToken ''id'' ''secret'' (Some ''r1'')) = Inr ?r"
    by (simp add: net_of_def service_def)
  have h2: "status_code ?r \<noteq> 200" by simp
  note T = refresh_failure_forces_authorization [OF h h2, of ?c expired_cache]
  have r: "refresh_access_token ''id'' ''secret'' (Some ''r1'') ?c (net_of 400) expired_cache
             = (Inr None, [ErrorRefreshing 400], ?n, ?fs)"
    using refresh_failure [OF h h2, of ?c expired_cache] by simp
  note T1 = T [THEN conjunct1, unfolded r prod.case]
  note T2 = T [THEN conjunct2, rule_format, of ?td "(2024, 1, 1, 0, 0, 0, 0)" ?u "''''"]
  have iso: "isoformat (2024, 1, 1, 0, 0, 0, 0) = ''2024-01-01T00:00:00''" by code_simp
  have "valid_datetime (2024, 1, 1, 0, 0, 0, 0)"
    by (simp add: valid_datetime_def days_in_month_def is_leap_def)
  then have p: "fromisoformat ''2024-01-01T00:00:00'' = Inr (2024, 1, 1, 0, 0, 0, 0)"
    using fromisoformat_isoformat [of "(2024, 1, 1, 0, 0, 0, 0)"] iso by simp
  have q: "\<not> now ?c < shift ?c (2024, 1, 1, 0, 0, 0, 0) (- 300)"
    unfolding clock_at_def by (simp add: less_prod_def)
  have g: "get_user_token ''id'' ''secret'' ?u ?c '''' (net_of 400) expired_cache
           = refresh_access_token ''id'' ''secret'' (Some ''r1'') ?c (net_of 400) expired_cache"
  proof (rule T2, intro conjI)
    show "token_cache_file expired_cache = Some ?td" by (simp add: expired_cache_def)
    show "fromisoformat (cached_expires_at ?td) = Inr (2024, 1, 1, 0, 0, 0, 0)" using p by simp
    show "\<not> now ?c < shift ?c (2024, 1, 1, 0, 0, 0, 0) (- 300)" by (rule q)
    show "cached_refresh_token ?td = Some (Some ''r1'')" by simp
  qed
  have f: "get_user_token ''id'' ''secret'' ?u ?c2 ''http://localhost:8888/callback?code=abc''
             (net_of 200) ?fs
           = authorize ''id'' ''secret'' ?u ?c2 ''http://localhost:8888/callback?code=abc''
             (net_of 200) ?fs"
    using T1 [THEN conjunct2, THEN conjunct2, rule_format, THEN conjunct1] .
  have au: "case authorize ''id'' ''secret'' ?u ?c2 ''http://localhost:8888/callback?code=abc''
                (net_of 200) ?fs of
      (res2, ms2, n2, fs2) \<Rightarrow>
                res2 = Inr (Some ''tok'') \<and> PromptRedirect \<in> set ms2
                \<and> sent n2 = [PostAuthCode ''abc'' ''http://localhost:8888/callback'' ''id'' ''secret'']"
    by code_simp
  have t: "token_cache_file ?fs = None" by simp
  show ?thesis unfolding g r prod.case f using au t by (simp only: simp_thms)
qed

section \<open>Properties of the montage\<close>

subsection \<open>Ceiling division and the grid\<close>

lemma ceil_div_pos:
  fixes N P :: int
  assumes "0 < N" "0 < P"
  shows "1 \<le> - ((- N) div P)" and "N \<le> (- ((- N) div P)) * P" and "N < P \<Longrightarrow> - ((- N) div P) = 1"
proof -
  have e: "(- N) div P * P + (- N) mod P = - N" by simp
  have m: "0 \<le> (- N) mod P" "(- N) mod P < P" using assms by simp_all
  from e m have le: "(- N) div P * P \<le> - N" by linarith
  then have "(- N) div P * P < 0" using assms by linarith
  then have neg: "(- N) div P < 0" using assms(2) by (simp add: mult_less_0_iff)
  then show "1 \<le> - ((- N) div P)" by simp
  from le show "N \<le> (- ((- N) div P)) * P" by simp
  show "N < P \<Longrightarrow> - ((- N) div P) = 1"
  proof -
    assume "N < P"
    have d: "((- N) div P + 2) * P = (- N) div P * P + 2 * P" by (simp add: algebra_simps)
    have "0 < (- N) div P * P + 2 * P" using e m assms \<open>N < P\<close> by linarith
    with d have "0 < ((- N) div P + 2) * P" by simp
    then have "0 < (- N) div P + 2" using assms(2) by (simp add: zero_less_mult_iff)
    with neg show ?thesis by simp
  qed
qed

lemma init_ok:
  assumes "0 < N" "0 < P" "0 < W" "0 < H"
  shows "results_montage_init (W, H) P N b =
     Inr \<lparr>imageW = W, imageH = H, images_per_main_axis = P, by_row = b,
          montage = \<lparr>dim0 = (if b then (- ((- N) div P)) * W else min P N * W),
                     dim1 = (if b then min P N * H else (- ((- N) div P)) * H),
                     px = (\<lambda>y x. (0, 0, 0))\<rparr>,
          counter = 0, row = 0, col = 0\<rparr>"
proof -
  have c: "0 \<le> - ((- N) div P)" using ceil_div_pos(1)[OF assms(1,2)] by simp
  have a: "0 \<le> (- ((- N) div P)) * W" "0 \<le> (- ((- N) div P)) * H"
    using c assms(3,4) by (simp_all only: mult_nonneg_nonneg less_imp_le)
  have m: "0 \<le> min P N * W" "0 \<le> min P N * H" using assms by simp_all
  show ?thesis using a m assms(2)
    by (simp add: results_montage_init_def np_zeros_def Let_def not_less)
qed


lemma pred_div_mod:
  fixes k P :: int
  assumes "0 < P" "0 < k"
  shows "k mod P = 0 \<Longrightarrow> (k - 1) div P + 1 = k div P"
    and "k mod P \<noteq> 0 \<Longrightarrow> (k - 1) div P = k div P"
    and "k mod P \<noteq> 0 \<Longrightarrow> (k - 1) mod P + 1 = k mod P"
proof -
  have e: "k = P * (k div P) + k mod P" by simp
  have m: "0 \<le> k mod P" "k mod P < P" using assms by simp_all
  {
    assume z: "k mod P = 0"
    have "k - 1 = P * (k div P - 1) + (P - 1)" using e z by (simp add: algebra_simps)
    moreover have "0 \<le> P - 1" "P - 1 < P" using assms(1) by simp_all
    ultimately have "(k - 1) div P = k div P - 1" by (rule int_div_pos_eq)
    then show "(k - 1) div P + 1 = k div P" by simp
  }
  {
    assume nz: "k mod P \<noteq> 0"
    have d: "k - 1 = P * (k div P) + (k mod P - 1)" using e by linarith
    have r: "0 \<le> k mod P - 1" "k mod P - 1 < P" using m nz by linarith+
    show "(k - 1) div P = k div P" using d r by (rule int_div_pos_eq)
    have "(k - 1) mod P = k mod P - 1" using d r by (rule int_mod_pos_eq)
    then show "(k - 1) mod P + 1 = k mod P" by simp
  }
qed

lemma next_cell_at:
  assumes "cursor_at self k" "0 \<le> k" "0 < images_per_main_axis self"
  shows "next_cell self = cell_of (by_row self) (images_per_main_axis self) k"
proof (cases "k = 0")
  case True
  with assms show ?thesis
    by (simp add: cursor_at_def next_cell_def wrap_cursor_def cell_of_def)
next
  case False
  with assms(2) have kp: "0 < k" by simp
  note pd = pred_div_mod [OF assms(3) kp]
  show ?thesis
  proof (cases "k mod images_per_main_axis self = 0")
    case True
    with assms(1) False pd(1)[OF True] show ?thesis
      by (auto simp: cursor_at_def next_cell_def wrap_cursor_def cell_of_def)
  next
    case nz: False
    with assms(1) False pd(2)[OF nz] pd(3)[OF nz] show ?thesis
      by (auto simp: cursor_at_def next_cell_def wrap_cursor_def cell_of_def)
  qed
qed

lemma next_slice_at:
  assumes "cursor_at self k" "0 \<le> k" "0 < images_per_main_axis self"
  shows "next_slice self =
           cell_slice (imageW self) (imageH self) (cell_of (by_row self) (images_per_main_axis self) k)"
proof -
  have "next_slice self = cell_slice (imageW self) (imageH self) (next_cell self)"
    by (simp add: next_slice_def next_cell_def cell_slice_def cursor_slice_def wrap_cursor_def)
  then show ?thesis using next_cell_at [OF assms] by simp
qed

lemma add_result_step:
  assumes "add_result cv self im l h = Inr self'" "cursor_at self k" "0 \<le> k"
    "0 < images_per_main_axis self"
  shows "cursor_at self' (k + 1)" and "same_frame self' self"
proof -
  have nc: "(row (wrap_cursor self), col (wrap_cursor self))
              = cell_of (by_row self) (images_per_main_axis self) k"
    using next_cell_at [OF assms(2,3,4)] by (simp add: next_cell_def)
  have wf: "by_row (wrap_cursor self) = by_row self"
    "images_per_main_axis (wrap_cursor self) = images_per_main_axis self"
    "counter (wrap_cursor self) = counter self"
    "imageW (wrap_cursor self) = imageW self" "imageH (wrap_cursor self) = imageH self"
    "montage (wrap_cursor self) = montage self"
    by (simp_all add: wrap_cursor_def)
  have c: "counter self = k" using assms(2) by (simp add: cursor_at_def)
  from assms(1) obtain img m1 where
    r: "cv2_resize cv im (imageH self, imageW self) = Inr img" and
    s: "set_slice (montage self) (fst (cursor_slice (wrap_cursor self)))
          (snd (cursor_slice (wrap_cursor self))) img = Inr m1"
    by (auto simp: add_result_def Let_def wf split: if_splits sum.splits prod.splits)
  have d: "dim0 m1 = dim0 (montage self)" "dim1 m1 = dim1 (montage self)"
    using s by (auto simp: set_slice_def Let_def split: if_splits)
  from assms(1) r s have
    "counter self' = k + 1 \<and> by_row self' = by_row self
     \<and> images_per_main_axis self' = images_per_main_axis self
     \<and> imageW self' = imageW self \<and> imageH self' = imageH self
     \<and> dim0 (montage self') = dim0 (montage self) \<and> dim1 (montage self') = dim1 (montage self)
     \<and> row self' = (if by_row self then row (wrap_cursor self) else row (wrap_cursor self) + 1)
     \<and> col self' = (if by_row self then col (wrap_cursor self) + 1 else col (wrap_cursor self))"
    using c d
    by (auto simp: add_result_def Let_def wf split: if_splits sum.splits prod.splits option.splits)
  then show "cursor_at self' (k + 1)" and "same_frame self' self"
    using nc assms(3) by (auto simp: cursor_at_def same_frame_def cell_of_def split: if_splits)
qed


lemma add_results_inv:
  "add_results cv self calls = Inr self' \<Longrightarrow> cursor_at self k \<Longrightarrow> 0 \<le> k \<Longrightarrow>
   0 < images_per_main_axis self \<Longrightarrow>
   cursor_at self' (k + int (length calls)) \<and> same_frame self' self"
proof (induction calls arbitrary: self k)
  case Nil
  then show ?case by (simp add: same_frame_def)
next
  case (Cons c cs)
  from Cons.prems(1) obtain s1 where
    a: "add_result cv self (fst c) (fst (snd c)) (snd (snd c)) = Inr s1" and
    b: "add_results cv s1 cs = Inr self'"
    by (auto split: sum.splits)
  note st = add_result_step [OF a Cons.prems(2,3,4)]
  have p: "0 < images_per_main_axis s1" using st(2) Cons.prems(4) by (simp add: same_frame_def)
  have "cursor_at self' (k + 1 + int (length cs)) \<and> same_frame self' s1"
    using Cons.IH [OF b st(1) _ p] Cons.prems(3) by simp
  then show ?case using st(2) by (simp add: same_frame_def add.assoc)
qed

lemma div_less_mult_int:
  fixes k P A :: int
  assumes "0 < P"
  shows "(k div P < A) = (k < A * P)"
proof
  have e: "k = P * (k div P) + k mod P" by simp
  have m: "0 \<le> k mod P" "k mod P < P" using assms by simp_all
  {
    assume "k div P < A"
    then have "k div P + 1 \<le> A" by simp
    then have "P * (k div P + 1) \<le> P * A" using assms by (simp only: mult_left_mono less_imp_le)
    moreover have "P * (k div P + 1) = P * (k div P) + P" by (simp add: algebra_simps)
    moreover have "A * P = P * A" by simp
    ultimately show "k < A * P" using e m by linarith
  }
  {
    assume lt: "k < A * P"
    show "k div P < A"
    proof (rule ccontr)
      assume "\<not> k div P < A"
      then have "A \<le> k div P" by simp
      then have pa: "P * A \<le> P * (k div P)" using assms by (simp only: mult_left_mono less_imp_le)
      have c: "A * P = P * A" by simp
      show False using e m lt pa c by linarith
    qed
  }
qed

lemma grid_iff:
  fixes N P k :: int
  assumes "0 < N" "0 < P" "0 \<le> k"
  shows "(k < (- ((- N) div P)) * min P N) = (k div P < - ((- N) div P) \<and> k mod P < min P N)"
proof (cases "N < P")
  case True
  then have A: "- ((- N) div P) = 1" using ceil_div_pos(3) [OF assms(1,2)] by simp
  have M: "min P N = N" using True by simp
  show ?thesis
  proof
    assume "k < (- ((- N) div P)) * min P N"
    then have kn: "k < N" using A M by simp
    then have "k div P = 0" "k mod P = k" using True assms(3) by simp_all
    then show "k div P < - ((- N) div P) \<and> k mod P < min P N" using A M kn by simp
  next
    assume r: "k div P < - ((- N) div P) \<and> k mod P < min P N"
    have "0 \<le> k div P" using assms(2,3) by (simp add: pos_imp_zdiv_nonneg_iff)
    with r A have z: "k div P = 0" by simp
    have "k = P * (k div P) + k mod P" by simp
    with z have "k = k mod P" by simp
    with r M A show "k < (- ((- N) div P)) * min P N" by simp
  qed
next
  case False
  then have M: "min P N = P" by simp
  show ?thesis using assms(2) by (simp add: M div_less_mult_int)
qed

lemma cell_nonneg:
  fixes k P :: int
  assumes "0 < P" "0 \<le> k"
  shows "0 \<le> fst (cell_of b P k)" and "0 \<le> snd (cell_of b P k)"
  using assms by (simp_all add: cell_of_def pos_imp_zdiv_nonneg_iff)

lemma set_slice_fit:
  assumes "0 \<le> y0" "y0 + dim0 v \<le> dim0 a" "0 \<le> x0" "x0 + dim1 v \<le> dim1 a"
    "0 < dim0 v" "0 < dim1 v"
  shows "set_slice a (y0, y0 + dim0 v) (x0, x0 + dim1 v) v =
     Inr (a\<lparr>px := (\<lambda>y x. if in_slice ((y0, y0 + dim0 v), (x0, x0 + dim1 v)) y x
                               then to_uint8 (px v (y - y0) (x - x0)) else px a y x)\<rparr>)"
proof -
  have i: "slice_index y0 (dim0 a) = y0" "slice_index (y0 + dim0 v) (dim0 a) = y0 + dim0 v"
    "slice_index x0 (dim1 a) = x0" "slice_index (x0 + dim1 v) (dim1 a) = x0 + dim1 v"
    using assms by (simp_all add: slice_index_def)
  have f: "(\<lambda>y x. if y0 \<le> y \<and> y < y0 + dim0 v \<and> x0 \<le> x \<and> x < x0 + dim1 v
                 then to_uint8 (px v (if dim0 v = 1 then 0 else y - y0) (if dim1 v = 1 then 0 else x - x0))
                 else px a y x)
         = (\<lambda>y x. if in_slice ((y0, y0 + dim0 v), (x0, x0 + dim1 v)) y x
                 then to_uint8 (px v (y - y0) (x - x0)) else px a y x)"
    by (intro ext) (auto simp: in_slice_def)
  show ?thesis using assms(5,6) by (simp add: set_slice_def i Let_def broadcastable_def f)
qed

lemma set_slice_outside:
  assumes "0 \<le> fst ys" "fst ys \<le> snd ys" "0 \<le> fst xs" "fst xs \<le> snd xs"
    "dim0 a \<le> fst ys \<or> dim1 a \<le> fst xs"
  shows "set_slice a ys xs v = Inl ValueError \<or> set_slice a ys xs v = Inr a"
    and "1 < dim0 v \<Longrightarrow> 1 < dim1 v \<Longrightarrow> set_slice a ys xs v = Inl ValueError"
proof -
  let ?y0 = "slice_index (fst ys) (dim0 a)" and ?y1 = "slice_index (snd ys) (dim0 a)"
  let ?x0 = "slice_index (fst xs) (dim1 a)" and ?x1 = "slice_index (snd xs) (dim1 a)"
  have z: "max 0 (?y1 - ?y0) = 0 \<or> max 0 (?x1 - ?x0) = 0"
    using assms by (auto simp: slice_index_def)
  then have e: "(\<lambda>y x. if ?y0 \<le> y \<and> y < ?y0 + max 0 (?y1 - ?y0) \<and> ?x0 \<le> x \<and> x < ?x0 + max 0 (?x1 - ?x0)
                 then to_uint8 (px v (if dim0 v = 1 then 0 else y - ?y0) (if dim1 v = 1 then 0 else x - ?x0))
                 else px a y x) = px a"
    by (intro ext) auto
  show "set_slice a ys xs v = Inl ValueError \<or> set_slice a ys xs v = Inr a"
    unfolding set_slice_def Let_def e by simp
  show "1 < dim0 v \<Longrightarrow> 1 < dim1 v \<Longrightarrow> set_slice a ys xs v = Inl ValueError"
    using z unfolding set_slice_def Let_def by (auto simp: broadcastable_def)
qed

lemma wrap_cursor_fields:
  "by_row (wrap_cursor self) = by_row self"
  "images_per_main_axis (wrap_cursor self) = images_per_main_axis self"
  "counter (wrap_cursor self) = counter self"
  "imageW (wrap_cursor self) = imageW self"
  "imageH (wrap_cursor self) = imageH self"
  "montage (wrap_cursor self) = montage self"
  by (simp_all add: wrap_cursor_def)

lemma cell_step_le:
  fixes r R W :: int
  assumes "0 \<le> r" "r < R" "0 < W"
  shows "0 \<le> r * W" and "r * W + W \<le> R * W"
proof -
  show "0 \<le> r * W" using assms by simp
  have "(r + 1) * W \<le> R * W" using assms by (simp only: mult_right_mono less_imp_le zless_add1_eq)
  then show "r * W + W \<le> R * W" by (simp add: algebra_simps)
qed

lemma place_fit:
  assumes fr: "imageW self = W" "imageH self = H" "images_per_main_axis self = P"
      "dim0 (montage self) = R * W" "dim1 (montage self) = C * H"
    and pos: "0 < W" "0 < H" "0 < P"
    and cur: "cursor_at self k" "0 \<le> k"
    and cell: "fst (cell_of (by_row self) P k) < R" "snd (cell_of (by_row self) P k) < C"
    and im: "nonempty im"
  shows "\<exists>self'. add_result cv self im l h = Inr self' \<and>
          (l = None \<longrightarrow> \<not> h \<longrightarrow>
             px (montage self') =
               (\<lambda>y x. if in_slice (next_slice self) y x
                      then to_uint8 (interp cv im W H (y - fst (fst (next_slice self)))
                                            (x - fst (snd (next_slice self))))
                      else px (montage self) y x))"
proof -
  define r where "r = fst (cell_of (by_row self) P k)"
  define c where "c = snd (cell_of (by_row self) P k)"
  have p': "0 < images_per_main_axis self" using fr(3) pos(3) by simp
  have rc0: "0 \<le> r" "0 \<le> c" using cell_nonneg [OF pos(3) cur(2)] by (simp_all add: r_def c_def)
  have ns: "next_slice self = ((r * W, r * W + W), (c * H, c * H + H))"
    using next_slice_at [OF cur(1,2) p'] fr(1,2,3)
    by (simp add: cell_slice_def r_def c_def algebra_simps)
  then have cs: "cursor_slice (wrap_cursor self) = ((r * W, r * W + W), (c * H, c * H + H))"
    by (simp add: next_slice_def)
  let ?img = "\<lparr>dim0 = W, dim1 = H, px = interp cv im W H\<rparr>"
  have rs: "cv2_resize cv im (H, W) = Inr ?img"
    using im pos by (simp add: cv2_resize_def nonempty_def not_le)
  have yb: "0 \<le> r * W" "r * W + W \<le> R * W" using cell_step_le [OF rc0(1) _ pos(1)] cell(1) r_def by simp_all
  have xb: "0 \<le> c * H" "c * H + H \<le> C * H" using cell_step_le [OF rc0(2) _ pos(2)] cell(2) c_def by simp_all
  have "set_slice (montage self) (r * W, r * W + dim0 ?img) (c * H, c * H + dim1 ?img) ?img =
     Inr ((montage self)\<lparr>px := (\<lambda>y x. if in_slice ((r * W, r * W + dim0 ?img), (c * H, c * H + dim1 ?img)) y x
                               then to_uint8 (px ?img (y - r * W) (x - c * H))
                               else px (montage self) y x)\<rparr>)"
    by (rule set_slice_fit) (use yb xb fr(4,5) pos(1,2) in simp_all)
  then have ss: "set_slice (montage self) (r * W, r * W + W) (c * H, c * H + H) ?img =
     Inr ((montage self)\<lparr>px := (\<lambda>y x. if in_slice ((r * W, r * W + W), (c * H, c * H + H)) y x
                               then to_uint8 (interp cv im W H (y - r * W) (x - c * H))
                               else px (montage self) y x)\<rparr>)"
    by (simp cong: if_cong)
  show ?thesis
    using pos(3) fr(3)
    by (simp add: add_result_def Let_def wrap_cursor_fields fr(1,2) rs cs ss ns
          split: option.splits cong: if_cong)
qed

lemma place_over:
  assumes fr: "imageW self = W" "imageH self = H" "images_per_main_axis self = P"
      "dim0 (montage self) = R * W" "dim1 (montage self) = C * H"
    and pos: "0 < W" "0 < H" "0 < P"
    and cur: "cursor_at self k" "0 \<le> k"
    and cell: "R \<le> fst (cell_of (by_row self) P k) \<or> C \<le> snd (cell_of (by_row self) P k)"
  shows "(\<exists>e. add_result cv self im None False = Inl (e, wrap_cursor self)) \<or>
         (\<exists>self'. add_result cv self im None False = Inr self' \<and> montage self' = montage self)"
    and "nonempty im \<Longrightarrow> 1 < W \<Longrightarrow> 1 < H \<Longrightarrow>
         add_result cv self im l h = Inl (ValueError, wrap_cursor self)"
proof -
  define r where "r = fst (cell_of (by_row self) P k)"
  define c where "c = snd (cell_of (by_row self) P k)"
  have p': "0 < images_per_main_axis self" using fr(3) pos(3) by simp
  have rc0: "0 \<le> r" "0 \<le> c" using cell_nonneg [OF pos(3) cur(2)] by (simp_all add: r_def c_def)
  have ns: "next_slice self = ((r * W, (r + 1) * W), (c * H, (c + 1) * H))"
    using next_slice_at [OF cur(1,2) p'] fr(1,2,3)
    by (simp add: cell_slice_def r_def c_def)
  then have cs: "cursor_slice (wrap_cursor self) = ((r * W, (r + 1) * W), (c * H, (c + 1) * H))"
    by (simp add: next_slice_def)
  have o: "dim0 (montage self) \<le> r * W \<or> dim1 (montage self) \<le> c * H"
    using cell pos(1,2) fr(4,5) by (auto simp: r_def c_def mult_right_mono)
  have b: "0 \<le> r * W" "r * W \<le> (r + 1) * W" "0 \<le> c * H" "c * H \<le> (c + 1) * H"
    using rc0 pos(1,2) by (simp_all add: algebra_simps)
  note so = set_slice_outside [of "(r * W, (r + 1) * W)" "(c * H, (c + 1) * H)" "montage self"]
  show "(\<exists>e. add_result cv self im None False = Inl (e, wrap_cursor self)) \<or>
         (\<exists>self'. add_result cv self im None False = Inr self' \<and> montage self' = montage self)"
  proof (cases "cv2_resize cv im (H, W)")
    case (Inl e)
    then show ?thesis using pos(3) fr(3)
      by (simp add: add_result_def Let_def wrap_cursor_fields fr(1,2))
  next
    case (Inr img)
    have "set_slice (montage self) (r * W, (r + 1) * W) (c * H, (c + 1) * H) img = Inl ValueError
          \<or> set_slice (montage self) (r * W, (r + 1) * W) (c * H, (c + 1) * H) img = Inr (montage self)"
      using so(1) [of img] b o by simp
    then show ?thesis using pos(3) fr(3) Inr
      by (auto simp: add_result_def Let_def wrap_cursor_fields fr(1,2) cs)
  qed
  show "nonempty im \<Longrightarrow> 1 < W \<Longrightarrow> 1 < H \<Longrightarrow>
         add_result cv self im l h = Inl (ValueError, wrap_cursor self)"
  proof -
    assume im: "nonempty im" and w: "1 < W" "1 < H"
    let ?img = "\<lparr>dim0 = W, dim1 = H, px = interp cv im W H\<rparr>"
    have rs: "cv2_resize cv im (H, W) = Inr ?img"
      using im pos by (simp add: cv2_resize_def nonempty_def not_le)
    have "set_slice (montage self) (r * W, (r + 1) * W) (c * H, (c + 1) * H) ?img = Inl ValueError"
      using so(2) [of ?img] b o w by simp
    then show ?thesis using pos(3) fr(3)
      by (simp add: add_result_def Let_def wrap_cursor_fields fr(1,2) rs cs)
  qed
qed

lemma init_frame:
  assumes pos: "0 < N" "0 < P" "0 < W" "0 < H"
    and i: "results_montage_init (W, H) P N b = Inr m0"
  shows "imageW m0 = W" "imageH m0 = H" "images_per_main_axis m0 = P" "by_row m0 = b"
    "dim0 (montage m0) = (if b then - ((- N) div P) else min P N) * W"
    "dim1 (montage m0) = (if b then min P N else - ((- N) div P)) * H"
    "cursor_at m0 0"
    "capacity m0 = (- ((- N) div P)) * min P N"
proof -
  note e = i [unfolded init_ok [OF pos]]
  from e show "imageW m0 = W" "imageH m0 = H" "images_per_main_axis m0 = P" "by_row m0 = b"
    by auto
  from e show d0: "dim0 (montage m0) = (if b then - ((- N) div P) else min P N) * W" by auto
  from e show d1: "dim1 (montage m0) = (if b then min P N else - ((- N) div P)) * H" by auto
  from e show "cursor_at m0 0" by (auto simp: cursor_at_def)
  from e have "imageW m0 = W" "imageH m0 = H" by auto
  then show "capacity m0 = (- ((- N) div P)) * min P N"
    using d0 d1 pos(3,4) by (simp add: capacity_def)
qed

lemma in_grid:
  fixes N P k :: int
  assumes "0 < N" "0 < P" "0 \<le> k"
  shows "(fst (cell_of b P k) < (if b then - ((- N) div P) else min P N)
          \<and> snd (cell_of b P k) < (if b then min P N else - ((- N) div P)))
         = (k < (- ((- N) div P)) * min P N)"
  using grid_iff [OF assms] by (auto simp: cell_of_def)

lemma same_frame_trans: "same_frame a b \<Longrightarrow> same_frame b c \<Longrightarrow> same_frame a c"
  by (simp add: same_frame_def)

lemma add_results_ok:
  assumes pos: "0 < N" "0 < P" "0 < W" "0 < H"
    and i: "results_montage_init (W, H) P N b = Inr m0"
  shows "same_frame self m0 \<Longrightarrow> cursor_at self k \<Longrightarrow> 0 \<le> k \<Longrightarrow>
         k + int (length calls) \<le> capacity m0 \<Longrightarrow> (\<forall>c\<in>set calls. nonempty (fst c)) \<Longrightarrow>
         \<exists>self'. add_results cv self calls = Inr self'"
proof (induction calls arbitrary: self k)
  case Nil
  then show ?case by simp
next
  case (Cons c cs)
  note f = init_frame [OF pos i]
  have sf: "imageW self = W" "imageH self = H" "images_per_main_axis self = P" "by_row self = b"
    "dim0 (montage self) = (if b then - ((- N) div P) else min P N) * W"
    "dim1 (montage self) = (if b then min P N else - ((- N) div P)) * H"
    using Cons.prems(1) f by (simp_all add: same_frame_def)
  have kc: "k < (- ((- N) div P)) * min P N" using Cons.prems(4) f(8) by simp
  have g: "fst (cell_of (by_row self) P k) < (if b then - ((- N) div P) else min P N)"
    "snd (cell_of (by_row self) P k) < (if b then min P N else - ((- N) div P))"
    using in_grid [OF pos(1,2) Cons.prems(3), of b] kc sf(4) by simp_all
  have ne: "nonempty (fst c)" using Cons.prems(5) by simp
  from place_fit [OF sf(1,2,3,5,6) pos(3,4,2) Cons.prems(2,3) g ne, of cv "fst (snd c)" "snd (snd c)"]
  obtain s1 where a: "add_result cv self (fst c) (fst (snd c)) (snd (snd c)) = Inr s1" by blast
  have p': "0 < images_per_main_axis self" using sf(3) pos(2) by simp
  note st = add_result_step [OF a Cons.prems(2,3) p']
  have "\<exists>self'. add_results cv s1 cs = Inr self'"
  proof (rule Cons.IH [of s1 "k + 1"])
    show "same_frame s1 m0" using st(2) Cons.prems(1) by (rule same_frame_trans)
    show "cursor_at s1 (k + 1)" by (rule st(1))
    show "0 \<le> k + 1" using Cons.prems(3) by simp
    show "k + 1 + int (length cs) \<le> capacity m0" using Cons.prems(4) by simp
    show "\<forall>c\<in>set cs. nonempty (fst c)" using Cons.prems(5) by simp
  qed
  then show ?case using a by simp
qed

lemma reached:
  assumes pos: "0 < N" "0 < P" "0 < W" "0 < H"
    and i: "results_montage_init (W, H) P N b = Inr m0"
    and r: "add_results cv m0 calls = Inr mk"
  shows "cursor_at mk (int (length calls))" "same_frame mk m0"
    "imageW mk = W" "imageH mk = H" "images_per_main_axis mk = P" "by_row mk = b"
    "dim0 (montage mk) = (if b then - ((- N) div P) else min P N) * W"
    "dim1 (montage mk) = (if b then min P N else - ((- N) div P)) * H"
proof -
  note f = init_frame [OF pos i]
  have p': "0 < images_per_main_axis m0" using f(3) pos(2) by simp
  from add_results_inv [OF r f(7) _ p'] show c: "cursor_at mk (int (length calls))"
    and s: "same_frame mk m0" by simp_all
  from s f show "imageW mk = W" "imageH mk = H" "images_per_main_axis mk = P" "by_row mk = b"
    "dim0 (montage mk) = (if b then - ((- N) div P) else min P N) * W"
    "dim1 (montage mk) = (if b then min P N else - ((- N) div P)) * H"
    by (simp_all add: same_frame_def)
qed

lemma cell_of_inj:
  fixes P i j :: int
  assumes "cell_of b P i = cell_of b P j"
  shows "i = j"
proof -
  from assms have "i div P = j div P" "i mod P = j mod P"
    by (auto simp: cell_of_def split: if_splits)
  then show ?thesis by (metis div_mult_mod_eq)
qed

lemma cell_slices_disjoint:
  fixes W H :: int
  assumes "0 < W" "0 < H" "rc \<noteq> rc'"
  shows "disjoint_slices (cell_slice W H rc) (cell_slice W H rc')"
proof -
  have m: "\<And>a b w :: int. 0 < w \<Longrightarrow> a < b \<Longrightarrow> (a + 1) * w \<le> b * w"
    by (simp only: mult_right_mono less_imp_le zless_add1_eq)
  from assms(3) have "fst rc < fst rc' \<or> fst rc' < fst rc \<or> snd rc < snd rc' \<or> snd rc' < snd rc"
    by (cases rc, cases rc') auto
  then show ?thesis
    using m [OF assms(1), of "fst rc" "fst rc'"] m [OF assms(1), of "fst rc'" "fst rc"]
      m [OF assms(2), of "snd rc" "snd rc'"] m [OF assms(2), of "snd rc'" "snd rc"]
    by (auto simp: disjoint_slices_def cell_slice_def)
qed

lemma cell_slice_inside:
  fixes W H :: int
  assumes "0 < W" "0 < H" "0 \<le> fst rc" "fst rc < R" "0 \<le> snd rc" "snd rc < C"
    "dim0 a = R * W" "dim1 a = C * H"
  shows "inside (cell_slice W H rc) a"
proof -
  note y = cell_step_le [OF assms(3,4,1)] and x = cell_step_le [OF assms(5,6,2)]
  show ?thesis using y x assms(1,2,7,8)
    by (simp add: inside_def cell_slice_def algebra_simps)
qed

text \<open>What is known of the state before the placement of index k, k below the capacity.\<close>

lemma placement:
  assumes pos: "0 < N" "0 < P" "0 < W" "0 < H"
    and i: "results_montage_init (W, H) P N b = Inr m0"
    and r: "add_results cv m0 calls = Inr mk"
    and k: "int (length calls) < capacity m0"
  shows "next_cell mk = cell_of b P (int (length calls))"
    and "next_slice mk = cell_slice W H (cell_of b P (int (length calls)))"
    and "inside (next_slice mk) (montage m0)"
    and "nonempty im \<Longrightarrow> \<exists>m'. add_result cv mk im l h = Inr m' \<and>
          (l = None \<longrightarrow> \<not> h \<longrightarrow>
             px (montage m') =
               (\<lambda>y x. if in_slice (next_slice mk) y x
                      then to_uint8 (interp cv im W H (y - fst (fst (next_slice mk)))
                                            (x - fst (snd (next_slice mk))))
                      else px (montage mk) y x))"
proof -
  note f = init_frame [OF pos i] and q = reached [OF pos i r]
  have p': "0 < images_per_main_axis mk" using q(5) pos(2) by simp
  have k0: "0 \<le> int (length calls)" by simp
  show nc: "next_cell mk = cell_of b P (int (length calls))"
    using next_cell_at [OF q(1) k0 p'] q(5,6) by simp
  show ns: "next_slice mk = cell_slice W H (cell_of b P (int (length calls)))"
    using next_slice_at [OF q(1) k0 p'] q(3,4,5,6) by simp
  have kc: "int (length calls) < (- ((- N) div P)) * min P N" using k f(8) by simp
  have g: "fst (cell_of b P (int (length calls))) < (if b then - ((- N) div P) else min P N)"
    "snd (cell_of b P (int (length calls))) < (if b then min P N else - ((- N) div P))"
    using in_grid [OF pos(1,2) k0, of b] kc by simp_all
  show "inside (next_slice mk) (montage m0)"
    unfolding ns
    using cell_slice_inside [OF pos(3,4) cell_nonneg(1) [OF pos(2) k0] g(1)
        cell_nonneg(2) [OF pos(2) k0] g(2) f(5,6)] .
  show "nonempty im \<Longrightarrow> \<exists>m'. add_result cv mk im l h = Inr m' \<and>
          (l = None \<longrightarrow> \<not> h \<longrightarrow>
             px (montage m') =
               (\<lambda>y x. if in_slice (next_slice mk) y x
                      then to_uint8 (interp cv im W H (y - fst (fst (next_slice mk)))
                                            (x - fst (snd (next_slice mk))))
                      else px (montage mk) y x))"
  proof -
    assume ne: "nonempty im"
    have g': "fst (cell_of (by_row mk) P (int (length calls))) < (if b then - ((- N) div P) else min P N)"
      "snd (cell_of (by_row mk) P (int (length calls))) < (if b then min P N else - ((- N) div P))"
      using g q(6) by simp_all
    show ?thesis using place_fit [OF q(3,4,5,7,8) pos(3,4,2) q(1) k0 g' ne] .
  qed
qed

lemma prefix_ok:
  assumes pos: "0 < N" "0 < P" "0 < W" "0 < H"
    and i: "results_montage_init (W, H) P N b = Inr m0"
    and l: "int (length calls) \<le> capacity m0" and ne: "\<forall>c\<in>set calls. nonempty (fst c)"
  shows "\<exists>mi. add_results cv m0 (take n calls) = Inr mi"
proof -
  note f = init_frame [OF pos i]
  show ?thesis
  proof (rule add_results_ok [OF pos i])
    show "same_frame m0 m0" by (simp add: same_frame_def)
    show "cursor_at m0 0" by (rule f(7))
    show "(0::int) \<le> 0" by simp
    show "0 + int (length (take n calls)) \<le> capacity m0" using l by simp
    show "\<forall>c\<in>set (take n calls). nonempty (fst c)" using ne by (meson in_set_takeD)
  qed
qed

lemma add_results_snoc:
  "add_results cv self (cs @ [c]) =
     (case add_results cv self cs of
        Inl e \<Rightarrow> Inl e
      | Inr s \<Rightarrow> add_result cv s (fst c) (fst (snd c)) (snd (snd c)))"
  by (induction cs arbitrary: self) (simp_all split: sum.splits)

lemma disjoint_in_slice:
  "disjoint_slices s t \<Longrightarrow> in_slice s y x \<Longrightarrow> \<not> in_slice t y x"
  by (auto simp: disjoint_slices_def in_slice_def)

lemma canvas_holds_images:
  assumes pos: "0 < N" "0 < P" "0 < W" "0 < H"
    and i: "results_montage_init (W, H) P N b = Inr m0"
    and l: "int (length calls) \<le> capacity m0" and ne: "\<forall>c\<in>set calls. nonempty (fst c)"
    and pl: "\<forall>c\<in>set calls. snd c = (None, False)"
  shows "n \<le> length calls \<Longrightarrow>
         \<exists>mn. add_results cv m0 (take n calls) = Inr mn
            \<and> (\<forall>i<n. \<forall>y x. in_slice (cell_slice W H (cell_of b P (int i))) y x \<longrightarrow>
                   px (montage mn) y x =
                     to_uint8 (interp cv (fst (calls ! i)) W H
                                 (y - fst (cell_of b P (int i)) * W)
                                 (x - snd (cell_of b P (int i)) * H)))"
proof (induction n)
  case 0
  then show ?case by simp
next
  case (Suc n)
  then have n: "n < length calls" by simp
  from Suc obtain mn where
    r: "add_results cv m0 (take n calls) = Inr mn" and
    h: "\<forall>i<n. \<forall>y x. in_slice (cell_slice W H (cell_of b P (int i))) y x \<longrightarrow>
                   px (montage mn) y x =
                     to_uint8 (interp cv (fst (calls ! i)) W H
                                 (y - fst (cell_of b P (int i)) * W)
                                 (x - snd (cell_of b P (int i)) * H))"
    by auto
  have ln: "int (length (take n calls)) < capacity m0" "int (length (take n calls)) = int n"
    using n l by simp_all
  have nen: "nonempty (fst (calls ! n))" using ne n by simp
  have pn: "snd (calls ! n) = (None, False)" using pl n by simp
  note p = placement [OF pos i r ln(1)]
  have ns: "next_slice mn = cell_slice W H (cell_of b P (int n))" using p(2) ln(2) by simp
  from p(4) [OF nen, where l = None and h = False] obtain m' where
    a: "add_result cv mn (fst (calls ! n)) None False = Inr m'" and
    c: "px (montage m') =
               (\<lambda>y x. if in_slice (next_slice mn) y x
                      then to_uint8 (interp cv (fst (calls ! n)) W H (y - fst (fst (next_slice mn)))
                                            (x - fst (snd (next_slice mn))))
                      else px (montage mn) y x)"
    by blast
  have t: "take (Suc n) calls = take n calls @ [calls ! n]"
    using n by (simp add: take_Suc_conv_app_nth)
  have r': "add_results cv m0 (take (Suc n) calls) = Inr m'"
    unfolding t add_results_snoc using r a pn by simp
  have "px (montage m') y x =
          to_uint8 (interp cv (fst (calls ! k)) W H
                      (y - fst (cell_of b P (int k)) * W) (x - snd (cell_of b P (int k)) * H))"
    if k: "k < Suc n" and s: "in_slice (cell_slice W H (cell_of b P (int k))) y x" for k y x
  proof (cases "k = n")
    case True
    then show ?thesis using s c ns by (simp add: cell_slice_def)
  next
    case False
    with k have kn: "k < n" by simp
    have "cell_of b P (int k) \<noteq> cell_of b P (int n)"
      using cell_of_inj [of b P "int k" "int n"] kn by auto
    then have "disjoint_slices (cell_slice W H (cell_of b P (int k)))
                 (cell_slice W H (cell_of b P (int n)))"
      using cell_slices_disjoint [OF pos(3,4)] by blast
    then have "\<not> in_slice (next_slice mn) y x" using disjoint_in_slice s ns by metis
    then have "px (montage m') y x = px (montage mn) y x" using c by simp
    then show ?thesis using h kn s by simp
  qed
  then show ?case using r' by blast
qed

lemmas ev = results_montage_init_def np_zeros_def capacity_def add_result_def wrap_cursor_def
  cursor_slice_def cv2_resize_def set_slice_def slice_index_def broadcastable_def plain_def
  img1_def cv_nearest_def Let_def next_slice_def next_cell_def disjoint_slices_def inside_def
  to_uint8_def empty_image_def

subsection \<open>Capacity and distinct cells\<close>

text \<open>
  C1, as the code has it: for positive N, P and a positive cell size the canvas allocated
  by \<open>results_montage\<close> has ceil(N/P) * min(P, N) cells, which is ceil(N/P) * P when
  P \<le> N. Every sequence of at most that many calls with non-empty images succeeds; any
  two of its calls assign slices that lie inside the canvas and share no position; and
  each call writes its resized image, cast to uint8, into its slice: when no call draws
  a label or a highlight, the canvas in the end holds the image of every call in the
  cell of that call.
\<close>

theorem montage_capacity_cells:
  assumes "0 < N" "0 < P" "0 < W" "0 < H"
  shows "case results_montage_init (W, H) P N b of
           Inl e \<Rightarrow> False
         | Inr m \<Rightarrow>
             capacity m = (- ((- N) div P)) * min P N
             \<and> (P \<le> N \<longrightarrow> capacity m = (- ((- N) div P)) * P)
             \<and> (\<forall>calls. int (length calls) \<le> capacity m \<and> (\<forall>c\<in>set calls. nonempty (fst c)) \<longrightarrow>
                  (\<exists>m'. add_results cv m calls = Inr m'
                      \<and> ((\<forall>c\<in>set calls. snd c = (None, False)) \<longrightarrow>
                           (\<forall>i<length calls. \<forall>y x.
                               in_slice (cell_slice W H (cell_of b P (int i))) y x \<longrightarrow>
                               px (montage m') y x =
                                 to_uint8 (interp cv (fst (calls ! i)) W H
                                             (y - fst (cell_of b P (int i)) * W)
                                             (x - snd (cell_of b P (int i)) * H)))))
                  \<and> (\<forall>i j. i < j \<and> j < length calls \<longrightarrow>
                      (\<exists>mi mj. add_results cv m (take i calls) = Inr mi
                             \<and> add_results cv m (take j calls) = Inr mj
                             \<and> next_slice mi = cell_slice W H (cell_of b P (int i))
                             \<and> next_slice mj = cell_slice W H (cell_of b P (int j))
                             \<and> inside (next_slice mi) (montage m)
                             \<and> inside (next_slice mj) (montage m)
                             \<and> disjoint_slices (next_slice mi) (next_slice mj))))"
proof -
  obtain m0 where i: "results_montage_init (W, H) P N b = Inr m0"
    using init_ok [OF assms] by blast
  note f = init_frame [OF assms i]
  have c2: "P \<le> N \<longrightarrow> capacity m0 = (- ((- N) div P)) * P" using f(8) by simp
  have body: "(\<exists>m'. add_results cv m0 calls = Inr m'
                      \<and> ((\<forall>c\<in>set calls. snd c = (None, False)) \<longrightarrow>
                           (\<forall>i<length calls. \<forall>y x.
                               in_slice (cell_slice W H (cell_of b P (int i))) y x \<longrightarrow>
                               px (montage m') y x =
                                 to_uint8 (interp cv (fst (calls ! i)) W H
                                             (y - fst (cell_of b P (int i)) * W)
                                             (x - snd (cell_of b P (int i)) * H)))))
      \<and> (\<forall>i j. i < j \<and> j < length calls \<longrightarrow>
            (\<exists>mi mj. add_results cv m0 (take i calls) = Inr mi
                   \<and> add_results cv m0 (take j calls) = Inr mj
                   \<and> next_slice mi = cell_slice W H (cell_of b P (int i))
                   \<and> next_slice mj = cell_slice W H (cell_of b P (int j))
                   \<and> inside (next_slice mi) (montage m0)
                   \<and> inside (next_slice mj) (montage m0)
                   \<and> disjoint_slices (next_slice mi) (next_slice mj)))"
    if l: "int (length calls) \<le> capacity m0" and ne: "\<forall>c\<in>set calls. nonempty (fst c)" for calls
  proof (intro conjI allI impI)
    obtain m' where r: "add_results cv m0 calls = Inr m'"
      using prefix_ok [OF assms i l ne, where n = "length calls" and cv = cv] by auto
    have "\<forall>i<length calls. \<forall>y x.
             in_slice (cell_slice W H (cell_of b P (int i))) y x \<longrightarrow>
             px (montage m') y x =
               to_uint8 (interp cv (fst (calls ! i)) W H
                           (y - fst (cell_of b P (int i)) * W)
                           (x - snd (cell_of b P (int i)) * H))"
      if pl: "\<forall>c\<in>set calls. snd c = (None, False)"
      using canvas_holds_images [OF assms i l ne pl, of "length calls" cv] r by simp
    then show "\<exists>m'. add_results cv m0 calls = Inr m'
                      \<and> ((\<forall>c\<in>set calls. snd c = (None, False)) \<longrightarrow>
                           (\<forall>i<length calls. \<forall>y x.
                               in_slice (cell_slice W H (cell_of b P (int i))) y x \<longrightarrow>
                               px (montage m') y x =
                                 to_uint8 (interp cv (fst (calls ! i)) W H
                                             (y - fst (cell_of b P (int i)) * W)
                                             (x - snd (cell_of b P (int i)) * H))))"
      using r by blast
  next
    fix ia ja :: nat
    assume ij: "ia < ja \<and> ja < length calls"
    obtain mi where ri: "add_results cv m0 (take ia calls) = Inr mi"
      using prefix_ok [OF assms i l ne] by blast
    obtain mj where rj: "add_results cv m0 (take ja calls) = Inr mj"
      using prefix_ok [OF assms i l ne] by blast
    have li: "int (length (take ia calls)) < capacity m0" "int (length (take ia calls)) = int ia"
      using ij l by simp_all
    have lj: "int (length (take ja calls)) < capacity m0" "int (length (take ja calls)) = int ja"
      using ij l by simp_all
    note pi = placement [OF assms i ri li(1)] and pj = placement [OF assms i rj lj(1)]
    have "cell_of b P (int ia) \<noteq> cell_of b P (int ja)"
      using cell_of_inj [of b P "int ia" "int ja"] ij by auto
    then have "disjoint_slices (next_slice mi) (next_slice mj)"
      unfolding pi(2) pj(2) li(2) lj(2) using cell_slices_disjoint [OF assms(3,4)] by blast
    then show "\<exists>mi mj. add_results cv m0 (take ia calls) = Inr mi
                   \<and> add_results cv m0 (take ja calls) = Inr mj
                   \<and> next_slice mi = cell_slice W H (cell_of b P (int ia))
                   \<and> next_slice mj = cell_slice W H (cell_of b P (int ja))
                   \<and> inside (next_slice mi) (montage m0)
                   \<and> inside (next_slice mj) (montage m0)
                   \<and> disjoint_slices (next_slice mi) (next_slice mj)"
      using ri rj pi(2,3) pj(2,3) li(2) lj(2) by auto
  qed
  show ?thesis unfolding i using f(8) c2 body by simp
qed

text \<open>
  Three images with five per row: a canvas of three cells, filled by three calls, each
  image in its own cell (the cells are 2 rows by 3 columns of pixels).
\<close>

theorem montage_capacity_cells_witness:
  "case results_montage_init (2, 3) 5 3 True of
     Inl e \<Rightarrow> False
   | Inr m \<Rightarrow>
       capacity m = 3
       \<and> (case add_results cv_nearest m [plain 1, plain 2, plain 300] of
            Inl es \<Rightarrow> False
          | Inr m' \<Rightarrow>
              px (montage m') 0 0 = (1, 1, 1) \<and> px (montage m') 1 5 = (2, 2, 2)
              \<and> px (montage m') 1 6 = (44, 44, 44))
       \<and> (case (add_results cv_nearest m (take 1 [plain 1, plain 2, plain 300]),
                 add_results cv_nearest m (take 2 [plain 1, plain 2, plain 300])) of
            (Inr mi, Inr mj) \<Rightarrow>
               disjoint_slices (next_slice mi) (next_slice mj)
               \<and> inside (next_slice mj) (montage m)
          | _ \<Rightarrow> False)"
proof -
  have pos: "(0::int) < 3" "(0::int) < 5" "(0::int) < 2" "(0::int) < 3" by simp_all
  note T = montage_capacity_cells [OF pos, where b = True and cv = cv_nearest]
  obtain m where i: "results_montage_init (2, 3) 5 3 True = Inr m"
    using T by (cases "results_montage_init (2, 3) 5 3 True") simp_all
  let ?calls = "[plain 1, plain 2, plain 300]"
  note T2 = T [unfolded i sum.case]
  from T2 have cap: "capacity m = 3" by simp
  have h: "int (length ?calls) \<le> capacity m \<and> (\<forall>c\<in>set ?calls. nonempty (fst c))"
    using cap by (simp add: plain_def img1_def nonempty_def)
  have pl: "\<forall>c\<in>set ?calls. snd c = (None, False)" by (simp add: plain_def)
  from T2 h pl obtain m' where
    a': "add_results cv_nearest m ?calls = Inr m'" and
    w: "\<forall>i<length ?calls. \<forall>y x.
          in_slice (cell_slice 2 3 (cell_of True 5 (int i))) y x \<longrightarrow>
          px (montage m') y x =
            to_uint8 (interp cv_nearest (fst (?calls ! i)) 2 3
                        (y - fst (cell_of True 5 (int i)) * 2)
                        (x - snd (cell_of True 5 (int i)) * 3))"
    by blast
  have w0: "px (montage m') 0 0 = (1, 1, 1)"
    using w [rule_format, of 0 0 0]
    by (simp add: in_slice_def cell_slice_def cell_of_def plain_def img1_def cv_nearest_def
          to_uint8_def)
  have w1: "px (montage m') 1 5 = (2, 2, 2)"
    using w [rule_format, of 1 1 5]
    by (simp add: in_slice_def cell_slice_def cell_of_def plain_def img1_def cv_nearest_def
          to_uint8_def)
  have w2: "px (montage m') 1 6 = (44, 44, 44)"
    using w [rule_format, of 2 1 6]
    by (simp add: in_slice_def cell_slice_def cell_of_def plain_def img1_def cv_nearest_def
          to_uint8_def)
  from T2 h have "(1::nat) < 2 \<and> 2 < length ?calls \<longrightarrow>
                      (\<exists>mi mj. add_results cv_nearest m (take 1 ?calls) = Inr mi
                             \<and> add_results cv_nearest m (take 2 ?calls) = Inr mj
                             \<and> inside (next_slice mi) (montage m)
                             \<and> inside (next_slice mj) (montage m)
                             \<and> disjoint_slices (next_slice mi) (next_slice mj))"
    by blast
  then obtain mi mj where
    d: "add_results cv_nearest m (take 1 ?calls) = Inr mi"
       "add_results cv_nearest m (take 2 ?calls) = Inr mj"
       "inside (next_slice mj) (montage m)" "disjoint_slices (next_slice mi) (next_slice mj)"
    by auto
  show ?thesis unfolding i by (simp only: sum.case cap a' d prod.case w0 w1 w2)
qed

text \<open>
  C1 as stated fails when N < P: three images with five per row give three cells, not
  ceil(3/5) * 5 = 5, and the fourth call raises.
\<close>

theorem montage_capacity_counterexample:
  "case results_montage_init (2, 3) 5 3 True of
     Inl e \<Rightarrow> False
   | Inr m \<Rightarrow>
       capacity m = 3 \<and> capacity m \<noteq> (- ((- 3) div 5)) * 5
       \<and> (case add_results cv_nearest m [plain 1, plain 2, plain 3, plain 4] of
            Inl es \<Rightarrow> fst es = ValueError
          | Inr m' \<Rightarrow> False)"
  by (simp add: ev)

subsection \<open>Order of the cells\<close>

text \<open>
  C2, as the code has it: on the canvas allocated for positive N and P, the i-th call
  (0-indexed) of a sequence of calls with non-empty images that fits the canvas, so that
  every call returns, assigns the cell (i div P, i mod P) when \<open>by_row\<close> is true and
  (i mod P, i div P) otherwise; without label and highlight the canvas then holds the
  resized image, cast to uint8, in that cell and is unchanged elsewhere.
\<close>

theorem add_result_cell_order:
  assumes "0 < N" "0 < P" "0 < W" "0 < H"
  shows "case results_montage_init (W, H) P N b of
           Inl e \<Rightarrow> False
         | Inr m \<Rightarrow>
             (\<forall>calls i. int (length calls) \<le> capacity m \<and> (\<forall>c\<in>set calls. nonempty (fst c))
                        \<and> i < length calls \<longrightarrow>
                (\<exists>mi. add_results cv m (take i calls) = Inr mi
                   \<and> next_cell mi = (if b then (int i div P, int i mod P)
                                     else (int i mod P, int i div P))
                   \<and> next_slice mi = cell_slice W H (next_cell mi)
                   \<and> (\<exists>m'. add_result cv mi (fst (calls ! i)) None False = Inr m'
                        \<and> (\<forall>y x. px (montage m') y x =
                              (if in_slice (next_slice mi) y x
                               then to_uint8 (interp cv (fst (calls ! i)) W H
                                      (y - fst (fst (next_slice mi))) (x - fst (snd (next_slice mi))))
                               else px (montage mi) y x)))))"
proof -
  obtain m0 where i: "results_montage_init (W, H) P N b = Inr m0"
    using init_ok [OF assms] by blast
  have body: "\<exists>mi. add_results cv m0 (take n calls) = Inr mi
                   \<and> next_cell mi = (if b then (int n div P, int n mod P)
                                     else (int n mod P, int n div P))
                   \<and> next_slice mi = cell_slice W H (next_cell mi)
                   \<and> (\<exists>m'. add_result cv mi (fst (calls ! n)) None False = Inr m'
                        \<and> (\<forall>y x. px (montage m') y x =
                              (if in_slice (next_slice mi) y x
                               then to_uint8 (interp cv (fst (calls ! n)) W H
                                      (y - fst (fst (next_slice mi))) (x - fst (snd (next_slice mi))))
                               else px (montage mi) y x)))"
    if l: "int (length calls) \<le> capacity m0" and ne: "\<forall>c\<in>set calls. nonempty (fst c)"
      and n: "n < length calls" for calls n
  proof -
    obtain mi where ri: "add_results cv m0 (take n calls) = Inr mi"
      using prefix_ok [OF assms i l ne] by blast
    have li: "int (length (take n calls)) < capacity m0" "int (length (take n calls)) = int n"
      using n l by simp_all
    have nei: "nonempty (fst (calls ! n))" using ne n by simp
    note p = placement [OF assms i ri li(1)]
    from p(4) [OF nei, where l = None and h = False] obtain m' where
      a: "add_result cv mi (fst (calls ! n)) None False = Inr m'" and
      b: "px (montage m') =
               (\<lambda>y x. if in_slice (next_slice mi) y x
                      then to_uint8 (interp cv (fst (calls ! n)) W H (y - fst (fst (next_slice mi)))
                                            (x - fst (snd (next_slice mi))))
                      else px (montage mi) y x)"
      by blast
    have c: "next_cell mi = (if b then (int n div P, int n mod P) else (int n mod P, int n div P))"
      using p(1) li(2) by (simp add: cell_of_def)
    have d: "next_slice mi = cell_slice W H (next_cell mi)" using p(1,2) by simp
    show ?thesis using ri a b c d by simp
  qed
  show ?thesis unfolding i using body by simp
qed

text \<open>
  The first scenario of the specification: four images, two per row, row-major, occupy
  the cells (0,0), (0,1), (1,0), (1,1) in input order.
\<close>

theorem add_result_cell_order_witness:
  "case results_montage_init (2, 3) 2 4 True of
     Inl e \<Rightarrow> False
   | Inr m \<Rightarrow>
       map (\<lambda>i. case add_results cv_nearest m (take i [plain 1, plain 2, plain 3, plain 4]) of
                   Inl es \<Rightarrow> None | Inr mi \<Rightarrow> Some (next_cell mi)) [0, 1, 2, 3]
         = [Some (0, 0), Some (0, 1), Some (1, 0), Some (1, 1)]"
proof -
  have pos: "(0::int) < 4" "(0::int) < 2" "(0::int) < 2" "(0::int) < 3" by simp_all
  note T = add_result_cell_order [OF pos, where b = True and cv = cv_nearest]
  obtain m where i: "results_montage_init (2, 3) 2 4 True = Inr m"
    using T by (cases "results_montage_init (2, 3) 2 4 True") simp_all
  let ?calls = "[plain 1, plain 2, plain 3, plain 4]"
  have cap: "capacity m = 4" using i by (auto simp: ev)
  have h: "int (length ?calls) \<le> capacity m \<and> (\<forall>c\<in>set ?calls. nonempty (fst c))"
    using cap by (simp add: plain_def img1_def nonempty_def)
  have al: "\<And>n. n < length ?calls \<Longrightarrow>
       \<exists>mi. add_results cv_nearest m (take n ?calls) = Inr mi
           \<and> next_cell mi = (int n div 2, int n mod 2)"
    using T [unfolded i sum.case if_True] h by blast
  from al [of 0] obtain m0 where c0: "add_results cv_nearest m (take 0 ?calls) = Inr m0"
    "next_cell m0 = (0, 0)" by auto
  from al [of 1] obtain m1 where c1: "add_results cv_nearest m (take 1 ?calls) = Inr m1"
    "next_cell m1 = (0, 1)" by auto
  from al [of 2] obtain m2 where c2: "add_results cv_nearest m (take 2 ?calls) = Inr m2"
    "next_cell m2 = (1, 0)" by auto
  from al [of 3] obtain m3 where c3: "add_results cv_nearest m (take 3 ?calls) = Inr m3"
    "next_cell m3 = (1, 1)" by auto
  show ?thesis unfolding i by (simp only: sum.case list.map c0 c1 c2 c3)
qed

text \<open>
  C2 as stated fails for a sequence in which a call raises: the cursor is wrapped before
  the image is resized and the counter is incremented only at the end. On a canvas of
  three rows of two cells, after two images the call with an empty image moves the cursor
  to row 1 and raises in the resize, the counter still 2; the next call, the one of
  index 3, wraps again and writes its image into cell (2, 0), rows 4 and 5 of the canvas,
  while the cells (1, 0) and (1, 1), rows 2 and 3, stay black.
\<close>

theorem add_result_after_raise_counterexample:
  "case results_montage_init (2, 3) 2 6 True of
     Inl e \<Rightarrow> False
   | Inr m \<Rightarrow>
       (case add_results cv_nearest m [plain 1, plain 2] of
          Inl es \<Rightarrow> False
        | Inr m2 \<Rightarrow>
            (case add_result cv_nearest m2 empty_image None False of
               Inr m' \<Rightarrow> False
             | Inl es \<Rightarrow>
                 fst es = Cv2Error \<and> counter (snd es) = 2
                 \<and> (case add_result cv_nearest (snd es) (img1 3) None False of
                      Inl es' \<Rightarrow> False
                    | Inr m3 \<Rightarrow>
                        counter m3 = 3 \<and> px (montage m3) 4 0 = (3, 3, 3)
                        \<and> px (montage m3) 2 0 = (0, 0, 0)
                        \<and> px (montage m3) 2 3 = (0, 0, 0))))"
  by (simp add: ev)

subsection \<open>Writes stay in the cell; placements beyond the capacity\<close>

text \<open>
  C10, as the code has it: after any sequence of successful calls on the canvas allocated
  for positive N and P, a call without label and highlight whose placement index is below
  the capacity changes no position outside its own cell, which lies inside the canvas. A
  call whose placement index is at or beyond the capacity never changes the canvas: it
  raises, or returns with the canvas as it was; when both extents of a cell are greater
  than 1 it raises a ValueError, with any label and highlight.
\<close>

theorem add_result_frame_and_overflow:
  assumes "0 < N" "0 < P" "0 < W" "0 < H"
  shows "case results_montage_init (W, H) P N b of
           Inl e \<Rightarrow> False
         | Inr m \<Rightarrow>
             (\<forall>calls mk im. add_results cv m calls = Inr mk \<longrightarrow>
                (int (length calls) < capacity m \<and> nonempty im \<longrightarrow>
                   inside (next_slice mk) (montage m)
                   \<and> (\<exists>m'. add_result cv mk im None False = Inr m'
                         \<and> (\<forall>y x. \<not> in_slice (next_slice mk) y x \<longrightarrow>
                               px (montage m') y x = px (montage mk) y x)))
                \<and> (capacity m \<le> int (length calls) \<longrightarrow>
                     ((\<exists>e. add_result cv mk im None False = Inl (e, wrap_cursor mk))
                      \<or> (\<exists>m'. add_result cv mk im None False = Inr m' \<and> montage m' = montage mk))
                     \<and> (nonempty im \<and> 1 < W \<and> 1 < H \<longrightarrow>
                          (\<forall>l h. add_result cv mk im l h = Inl (ValueError, wrap_cursor mk)))))"
proof -
  obtain m0 where i: "results_montage_init (W, H) P N b = Inr m0"
    using init_ok [OF assms] by blast
  note f = init_frame [OF assms i]
  have inb: "inside (next_slice mk) (montage m0)
             \<and> (\<exists>m'. add_result cv mk im None False = Inr m'
                   \<and> (\<forall>y x. \<not> in_slice (next_slice mk) y x \<longrightarrow>
                         px (montage m') y x = px (montage mk) y x))"
    if r: "add_results cv m0 calls = Inr mk" and k: "int (length calls) < capacity m0"
      and ne: "nonempty im" for calls mk im
  proof -
    note p = placement [OF assms i r k]
    from p(4) [OF ne, where l = None and h = False] obtain m' where
      a: "add_result cv mk im None False = Inr m'" and
      b: "px (montage m') =
               (\<lambda>y x. if in_slice (next_slice mk) y x
                      then to_uint8 (interp cv im W H (y - fst (fst (next_slice mk)))
                                            (x - fst (snd (next_slice mk))))
                      else px (montage mk) y x)"
      by blast
    show ?thesis using p(3) a b by simp
  qed
  have over: "((\<exists>e. add_result cv mk im None False = Inl (e, wrap_cursor mk))
                \<or> (\<exists>m'. add_result cv mk im None False = Inr m' \<and> montage m' = montage mk))
              \<and> (nonempty im \<and> 1 < W \<and> 1 < H \<longrightarrow>
                    (\<forall>l h. add_result cv mk im l h = Inl (ValueError, wrap_cursor mk)))"
    if r: "add_results cv m0 calls = Inr mk" and k: "capacity m0 \<le> int (length calls)"
    for calls mk im
  proof -
    note q = reached [OF assms i r]
    have k0: "0 \<le> int (length calls)" by simp
    have "\<not> int (length calls) < (- ((- N) div P)) * min P N" using k f(8) by simp
    then have g: "(if b then - ((- N) div P) else min P N) \<le> fst (cell_of (by_row mk) P (int (length calls)))
           \<or> (if b then min P N else - ((- N) div P)) \<le> snd (cell_of (by_row mk) P (int (length calls)))"
      using in_grid [OF assms(1,2) k0, of b] q(6) by auto
    note o = place_over [OF q(3,4,5,7,8) assms(3,4,2) q(1) k0 g]
    show ?thesis using o(1) [where im = im] o(2) [where im = im] by blast
  qed
  show ?thesis unfolding i by (simp only: sum.case) (use inb over in blast)
qed

theorem add_result_frame_and_overflow_witness:
  "case results_montage_init (2, 3) 2 4 True of
     Inl e \<Rightarrow> False
   | Inr m \<Rightarrow>
       (case add_results cv_nearest m [plain 1] of
          Inl es \<Rightarrow> False
        | Inr mk \<Rightarrow>
            (case add_result cv_nearest mk (img1 2) None False of
               Inl es \<Rightarrow> False
             | Inr m' \<Rightarrow> px (montage m') 0 0 = px (montage mk) 0 0))
       \<and> (case add_results cv_nearest m [plain 1, plain 2, plain 3, plain 4] of
            Inl es \<Rightarrow> False
          | Inr mk \<Rightarrow>
              add_result cv_nearest mk (img1 5) None False = Inl (ValueError, wrap_cursor mk))"
proof -
  have pos: "(0::int) < 4" "(0::int) < 2" "(0::int) < 2" "(0::int) < 3" by simp_all
  note T = add_result_frame_and_overflow [OF pos, where b = True and cv = cv_nearest]
  obtain m where i: "results_montage_init (2, 3) 2 4 True = Inr m"
    using T by (cases "results_montage_init (2, 3) 2 4 True") simp_all
  have cap: "capacity m = 4" using i by (auto simp: ev)
  obtain m1 where r1: "add_results cv_nearest m [plain 1] = Inr m1"
    using prefix_ok [OF pos i, where calls = "[plain 1]" and n = 1 and cv = cv_nearest] cap
    by (auto simp: plain_def img1_def nonempty_def)
  obtain m4 where r4: "add_results cv_nearest m [plain 1, plain 2, plain 3, plain 4] = Inr m4"
    using prefix_ok [OF pos i, where calls = "[plain 1, plain 2, plain 3, plain 4]" and n = 4
        and cv = cv_nearest] cap
    by (auto simp: plain_def img1_def nonempty_def)
  have ne: "nonempty (img1 2)" "nonempty (img1 5)" by (simp_all add: img1_def nonempty_def)
  from T [unfolded i sum.case] have T': "\<And>calls mk im. add_results cv_nearest m calls = Inr mk \<Longrightarrow>
                (int (length calls) < capacity m \<and> nonempty im \<longrightarrow>
                   inside (next_slice mk) (montage m)
                   \<and> (\<exists>m'. add_result cv_nearest mk im None False = Inr m'
                         \<and> (\<forall>y x. \<not> in_slice (next_slice mk) y x \<longrightarrow>
                               px (montage m') y x = px (montage mk) y x)))
                \<and> (capacity m \<le> int (length calls) \<longrightarrow>
                     ((\<exists>e. add_result cv_nearest mk im None False = Inl (e, wrap_cursor mk))
                      \<or> (\<exists>m'. add_result cv_nearest mk im None False = Inr m' \<and> montage m' = montage mk))
                     \<and> (nonempty im \<and> (1::int) < 2 \<and> (1::int) < 3 \<longrightarrow>
                          (\<forall>l h. add_result cv_nearest mk im l h = Inl (ValueError, wrap_cursor mk))))"
    by blast
  have ns: "next_slice m1 = ((0, 2), (3, 6))"
    using placement(2) [OF pos i r1] cap by (simp add: cell_slice_def cell_of_def)
  from T' [OF r1, of "img1 2"] cap ne obtain m' where
    a: "add_result cv_nearest m1 (img1 2) None False = Inr m'" and
    b: "\<forall>y x. \<not> in_slice (next_slice m1) y x \<longrightarrow> px (montage m') y x = px (montage m1) y x"
    by auto
  have b0: "px (montage m') 0 0 = px (montage m1) 0 0"
    using b ns by (simp add: in_slice_def)
  from T' [OF r4, of "img1 5"] cap ne have
    o: "add_result cv_nearest m4 (img1 5) None False = Inl (ValueError, wrap_cursor m4)"
    by simp
  show ?thesis unfolding i by (simp only: sum.case r1 r4 a b0 o)
qed

text \<open>
  C10 as stated fails for a cell of extent 1 along the overflowing axis: numpy broadcasts
  the one-row image into the empty slice, so the third call on a canvas of two cells
  returns without an error.
\<close>

theorem add_result_overflow_counterexample:
  "case results_montage_init (1, 2) 2 2 True of
     Inl e \<Rightarrow> False
   | Inr m \<Rightarrow>
       capacity m = 2
       \<and> (case add_results cv_nearest m [plain 1, plain 2, plain 3] of
            Inl es \<Rightarrow> False
          | Inr m' \<Rightarrow> counter m' = 3 \<and> dim0 (montage m') = 1 \<and> dim1 (montage m') = 4)"
  by (simp add: ev)

section \<open>Properties of the dominant colour\<close>

lemma set_counter_keys [simp]: "set (counter_keys xs) = set xs"
  by (induction xs) auto











end
